theory Spec2Isabelle
  imports Main
begin


section \<open>C stdio streams over a regular file\<close>

text \<open>
  \<^verbatim>\<open>bamtools_fasta.cpp\<close> reads the FASTA file and its index through \<^verbatim>\<open>FILE*\<close>
  handles.  A handle open on a regular file is the file's bytes, the file position
  indicator and the end-of-file indicator.  \<^verbatim>\<open>char\<close> is the signed 8-bit type of
  the platforms BamTools is built for, so \<^verbatim>\<open>(char)EOF\<close> is the byte \<open>0xFF\<close> and
  a byte is non-negative iff it is below 128.
\<close>

abbreviation NUL :: char where "NUL \<equiv> CHR 0x00"
abbreviation TAB :: char where "TAB \<equiv> CHR 0x09"
abbreviation LF :: char where "LF \<equiv> CHR 0x0A"
abbreviation CR :: char where "CR \<equiv> CHR 0x0D"
abbreviation SPC :: char where "SPC \<equiv> CHR 0x20"
abbreviation GT :: char where "GT \<equiv> CHR 0x3E"
abbreviation EOFC :: char where "EOFC \<equiv> CHR 0xFF"

record stream =
  fdata :: string
  fpos :: nat
  feof :: bool

text \<open>\<^verbatim>\<open>fgetc\<close>: the next byte, or \<^verbatim>\<open>EOF\<close> (here \<open>None\<close>) with the end-of-file
  indicator set.\<close>

definition fgetc :: "stream \<Rightarrow> char option \<times> stream" where
  "fgetc s =
     (if fpos s < length (fdata s)
      then (Some (fdata s ! fpos s), s\<lparr>fpos := fpos s + 1\<rparr>)
      else (None, s\<lparr>feof := True\<rparr>))"

text \<open>The conversion of \<^verbatim>\<open>fgetc\<close>'s \<^verbatim>\<open>int\<close> to \<^verbatim>\<open>char\<close>: \<^verbatim>\<open>EOF\<close> is \<open>-1\<close>,
  the same \<^verbatim>\<open>char\<close> as the byte \<open>0xFF\<close>.\<close>

definition to_char :: "char option \<Rightarrow> char" where
  "to_char r = (case r of None \<Rightarrow> EOFC | Some c \<Rightarrow> c)"

text \<open>\<^verbatim>\<open>ungetc(ch, Stream)\<close> with \<^verbatim>\<open>char ch\<close>, called right after \<^verbatim>\<open>fgetc\<close> on the
  character just read: a \<^verbatim>\<open>ch\<close> equal to \<^verbatim>\<open>EOF\<close> is refused and leaves the stream
  as it is; any other character is pushed back and clears the end-of-file
  indicator.\<close>

definition ungetc :: "char \<Rightarrow> stream \<Rightarrow> stream" where
  "ungetc ch s = (if ch = EOFC then s else s\<lparr>fpos := fpos s - 1, feof := False\<rparr>)"

text \<open>A C string ends at its first \<^verbatim>\<open>NUL\<close>.\<close>

definition c_str :: "string \<Rightarrow> string" where
  "c_str s = takeWhile (\<lambda>c. c \<noteq> NUL) s"

text \<open>The bytes \<^verbatim>\<open>fgets\<close> stores: at most \<open>k\<close>, ending after the first newline.\<close>

fun take_line :: "nat \<Rightarrow> string \<Rightarrow> string" where
  "take_line 0 cs = []"
| "take_line (Suc k) [] = []"
| "take_line (Suc k) (c # cs) = (if c = LF then [c] else c # take_line k cs)"

text \<open>\<^verbatim>\<open>fgets(buffer, n, Stream)\<close>: \<open>None\<close> is the null pointer (nothing read, end of
  file); otherwise the buffer as a C string.  The end-of-file indicator is set
  when the read ran into the end of the file, that is when it stopped before
  \<open>n - 1\<close> bytes without a newline.\<close>

definition fgets :: "nat \<Rightarrow> stream \<Rightarrow> string option \<times> stream" where
  "fgets n s =
     (let got = take_line (n - 1) (drop (fpos s) (fdata s)) in
      if got = [] then (None, s\<lparr>feof := True\<rparr>)
      else (Some (c_str got),
            s\<lparr>fpos := fpos s + length got,
              feof := (feof s \<or> (length got < n - 1 \<and> last got \<noteq> LF))\<rparr>))"

text \<open>\<^verbatim>\<open>fseek64(Stream, off, SEEK_SET)\<close> on a regular file fails for a negative
  offset only, and clears the end-of-file indicator.\<close>

definition fseek64 :: "stream \<Rightarrow> int \<Rightarrow> stream option" where
  "fseek64 s off = (if off < 0 then None else Some (s\<lparr>fpos := nat off, feof := False\<rparr>))"

definition ftell64 :: "stream \<Rightarrow> int" where
  "ftell64 s = int (fpos s)"

text \<open>C's \<^verbatim>\<open>/\<close> and \<^verbatim>\<open>%\<close> truncate towards zero; the divisor is checked before.\<close>

definition c_div :: "int \<Rightarrow> int \<Rightarrow> int" where
  "c_div a b = sgn a * sgn b * (\<bar>a\<bar> div \<bar>b\<bar>)"

definition c_mod :: "int \<Rightarrow> int \<Rightarrow> int" where
  "c_mod a b = a - b * c_div a b"

section \<open>The reader's state\<close>

record FastaIndexData =
  Name :: string
  Length :: int
  Offset :: int
  LineLength :: int
  ByteLength :: int

text \<open>The index stream is opened for reading by \<^verbatim>\<open>Open\<close> and for writing by
  \<^verbatim>\<open>CreateIndex\<close>; a stream open for writing is the path it writes to.\<close>

datatype index_stream = Reading stream | Writing string

record FastaPrivate =
  Stream :: stream
  IsOpen :: bool
  IndexStream :: index_stream
  HasIndex :: bool
  IsIndexOpen :: bool
  Index :: "FastaIndexData list"

text \<open>Every \<^verbatim>\<open>return false\<close> of the source is a \<open>Failed\<close> outcome named after the
  diagnostic printed before it; what leaves a method without returning is
  \<open>Aborted\<close>: an uncaught \<^verbatim>\<open>std::out_of_range\<close>, or undefined behaviour.\<close>

datatype error =
    FileNotOpen
  | RewindFailed
  | CouldNotReadFromFile
  | UnexpectedEndOfFile
  | ExpectedHeader
  | CouldNotParseName
  | CouldNotReadSequence
  | CouldNotOpenFasta
  | CouldNotOpenIndex
  | CouldNotWriteIndex
  | CouldNotLoadIndex
  | InvalidRefId
  | InvalidPosition
  | CouldNotSeek
  | NoIndexData
  | CouldNotGetSequence

datatype abort =
    OutOfRangeException
  | DivisionByZero
  | SignedOverflow
  | IndeterminateValue

datatype 'a outcome = Ok 'a | Failed error | Aborted abort

section \<open>Reading headers and sequences\<close>

text \<open>\<^verbatim>\<open>Chomp\<close> removes the trailing line feeds and carriage returns of a C string.\<close>

definition Chomp :: "string \<Rightarrow> string" where
  "Chomp sequence = rev (dropWhile (\<lambda>c. c = LF \<or> c = CR) (rev sequence))"

definition Rewind :: "FastaPrivate \<Rightarrow> bool \<times> FastaPrivate" where
  "Rewind d =
     (if \<not> IsOpen d then (False, d)
      else case fseek64 (Stream d) 0 of
             None \<Rightarrow> (False, d)
           | Some s \<Rightarrow> (True, d\<lparr>Stream := s\<rparr>))"

text \<open>\<^verbatim>\<open>buffer[0]\<close> of a C string (the terminator when it is empty).\<close>

definition first_char :: "string \<Rightarrow> char" where
  "first_char buffer = (case buffer of [] \<Rightarrow> NUL | c # cs \<Rightarrow> c)"

text \<open>\<^verbatim>\<open>GetNextHeader\<close>: \<open>Some header\<close> when it returns true; on \<open>None\<close> the caller's
  header string is left as it was.\<close>

definition GetNextHeader :: "FastaPrivate \<Rightarrow> string option \<times> FastaPrivate" where
  "GetNextHeader d =
     (if \<not> IsOpen d then (None, d)
      else if feof (Stream d) then (None, d)
      else case fgets 1024 (Stream d) of
             (None, s) \<Rightarrow> (None, d\<lparr>Stream := s\<rparr>)
           | (Some buffer, s) \<Rightarrow>
               if first_char buffer \<noteq> GT then (None, d\<lparr>Stream := s\<rparr>)
               else (Some buffer, d\<lparr>Stream := s\<rparr>))"

text \<open>The reading loop of \<^verbatim>\<open>GetNextSequence\<close>.  \<open>count\<close> is \<open>None\<close> for the default
  argument \<^verbatim>\<open>(size_t)-1\<close>, which no string reaches.\<close>

definition below_count :: "nat \<Rightarrow> nat option \<Rightarrow> bool" where
  "below_count n count = (case count of None \<Rightarrow> True | Some k \<Rightarrow> n < k)"

function sequence_loop :: "nat option \<Rightarrow> string \<Rightarrow> stream \<Rightarrow> bool \<times> string \<times> stream" where
  "sequence_loop count sequence s =
     (if below_count (length sequence) count then
        (case fgetc s of (r, s1) \<Rightarrow>
           (let ch = to_char r; s2 = ungetc ch s1 in
            if ch = GT then (True, sequence, s2)
            else if feof s2 then (True, sequence, s2)
            else case fgets 1024 s2 of
                   (None, s3) \<Rightarrow> (False, sequence, s3)
                 | (Some buffer, s3) \<Rightarrow> sequence_loop count (sequence @ Chomp buffer) s3))
      else (True, sequence, s))"
  by pat_completeness auto

lemma fgets_Some_advances:
  "fgets n s = (Some b, s') \<Longrightarrow>
     fpos s < fpos s' \<and> fpos s' \<le> length (fdata s) \<and> fdata s' = fdata s"
proof -
  assume a: "fgets n s = (Some b, s')"
  have le: "length (take_line k cs) \<le> length cs" for k cs
    by (induction k cs rule: take_line.induct) auto
  let ?got = "take_line (n - 1) (drop (fpos s) (fdata s))"
  from a have ne: "?got \<noteq> []" and s': "s' = s\<lparr>fpos := fpos s + length ?got,
      feof := (feof s \<or> (length ?got < n - 1 \<and> last ?got \<noteq> LF))\<rparr>"
    by (auto simp: fgets_def Let_def split: if_splits)
  from le[of "n - 1" "drop (fpos s) (fdata s)"]
  have "length ?got \<le> length (fdata s) - fpos s" by simp
  moreover from ne have "0 < length ?got" by simp
  ultimately have "fpos s < fpos s + length ?got \<and> fpos s + length ?got \<le> length (fdata s)"
    by arith
  then show ?thesis by (simp add: s')
qed

lemma peek_keeps_position:
  "fgetc s = (r, s1) \<Longrightarrow>
     fpos s \<le> fpos (ungetc (to_char r) s1) \<and> fdata (ungetc (to_char r) s1) = fdata s"
  by (auto simp: fgetc_def ungetc_def to_char_def split: if_splits)

termination sequence_loop
proof (relation "measure (\<lambda>(count, sequence, s). length (fdata s) - fpos s)", goal_cases)
  case 1
  show ?case by simp
next
  case (2 count sequence s x y xa xb xc ya x2)
  from 2 have a: "fgetc s = (x, y)" by simp
  note p = peek_keeps_position[OF a]
  from 2 have "fgets 1024 (ungetc (to_char x) y) = (Some x2, ya)" by simp
  from fgets_Some_advances[OF this] p
  have "fpos s < fpos ya" and "fpos ya \<le> length (fdata s)" and "fdata ya = fdata s"
    by auto
  then show ?case by auto
qed

definition GetNextSequence :: "FastaPrivate \<Rightarrow> nat option \<Rightarrow> (bool \<times> string) \<times> FastaPrivate" where
  "GetNextSequence d count =
     (if \<not> IsOpen d then ((False, []), d)
      else if feof (Stream d) then ((False, []), d)
      else case sequence_loop count [] (Stream d) of
             (ok, sequence, s) \<Rightarrow> ((ok, sequence), d\<lparr>Stream := s\<rparr>))"

text \<open>\<^verbatim>\<open>GetNameFromHeader\<close>: drop the leading \<open>>\<close>, skip the characters 32, 9, 10
  and 13, and take the run of other characters; \<open>None\<close> when the run is empty.
  (It is only called on a header that \<^verbatim>\<open>GetNextHeader\<close> accepted, which is not
  empty.)\<close>

definition is_blank :: "char \<Rightarrow> bool" where
  "is_blank c = (c = SPC \<or> c = TAB \<or> c = LF \<or> c = CR)"

definition GetNameFromHeader :: "string \<Rightarrow> string option" where
  "GetNameFromHeader header =
     (let s = drop 1 header;
          start = length (takeWhile is_blank s);
          stop = start + length (takeWhile (\<lambda>c. \<not> is_blank c) (drop start s))
      in if start = stop then None
         else Some (c_str (take (stop - start) (drop start s))))"

section \<open>Building the index\<close>

text \<open>The conversion of a \<^verbatim>\<open>size_t\<close> to \<^verbatim>\<open>int32_t\<close> (\<^verbatim>\<open>data.Length = sequence.length()\<close>),
  and of an \<^verbatim>\<open>int\<close> to \<^verbatim>\<open>size_t\<close>.\<close>

definition to_int32 :: "nat \<Rightarrow> int" where
  "to_int32 n = (int n + 2 ^ 31) mod 2 ^ 32 - 2 ^ 31"

definition to_size_t :: "int \<Rightarrow> nat" where
  "to_size_t i = nat (i mod 2 ^ 64)"

definition is_nonneg_char :: "char \<Rightarrow> bool" where
  "is_nonneg_char c = ((of_char c :: nat) < 128)"

definition isgraph :: "char \<Rightarrow> bool" where
  "isgraph c = (33 \<le> (of_char c :: nat) \<and> (of_char c :: nat) \<le> 126)"

text \<open>The loop of \<^verbatim>\<open>CreateIndex\<close> over the first line after the first header,
  one \<^verbatim>\<open>fgetc\<close> at a time, run on the unread bytes: it ends at a newline, at a
  negative \<^verbatim>\<open>char\<close> or at the end of the file.  The stream is rewound right
  after it, so only the two counters are kept.\<close>

fun first_line_loop :: "string \<Rightarrow> int \<Rightarrow> int \<Rightarrow> int \<times> int" where
  "first_line_loop [] lineLength byteLength = (lineLength, byteLength)"
| "first_line_loop (c # cs) lineLength byteLength =
     (if is_nonneg_char c \<and> c \<noteq> LF
      then first_line_loop cs (if isgraph c then lineLength + 1 else lineLength) (byteLength + 1)
      else (lineLength, byteLength))"


lemma sequence_loop_position:
  "sequence_loop count sequence s = (ok, sequence', s') \<Longrightarrow>
     fpos s \<le> fpos s' \<and> fdata s' = fdata s"
proof (induction count sequence s rule: sequence_loop.induct)
  case (1 count sequence s)
  show ?case
  proof (cases "below_count (length sequence) count")
    case False
    with "1.prems" show ?thesis by simp
  next
    case True
    obtain r s1 where g: "fgetc s = (r, s1)" by (cases "fgetc s")
    let ?s2 = "ungetc (to_char r) s1"
    note p = peek_keeps_position[OF g]
    show ?thesis
    proof (cases "to_char r = GT \<or> feof ?s2")
      case stop: True
      with True g "1.prems" have "s' = ?s2" by (auto simp: Let_def split: if_splits)
      with p show ?thesis by simp
    next
      case go: False
      obtain ob s3 where f: "fgets 1024 ?s2 = (ob, s3)" by (cases "fgets 1024 ?s2")
      show ?thesis
      proof (cases ob)
        case None
        with True g go f "1.prems" have "s' = s3" by (auto simp: Let_def)
        moreover from f None have "s3 = ?s2\<lparr>feof := True\<rparr>"
          by (auto simp: fgets_def Let_def split: if_splits)
        ultimately show ?thesis using p by simp
      next
        case (Some buffer)
        with f have f': "fgets 1024 ?s2 = (Some buffer, s3)" by simp
        note a = fgets_Some_advances[OF f']
        from True g go f' "1.prems"
        have rec: "sequence_loop count (sequence @ Chomp buffer) s3 = (ok, sequence', s')"
          by (auto simp: Let_def)
        from go have "to_char r \<noteq> GT" and "\<not> feof ?s2" by auto
        from "1.IH"[OF True g[symmetric] refl refl this f'[symmetric] refl rec]
        have "fpos s3 \<le> fpos s' \<and> fdata s' = fdata s3" .
        with a p show ?thesis by simp
      qed
    qed
  qed
qed

lemma GetNextHeader_Some_advances:
  "GetNextHeader d = (Some header, d1) \<Longrightarrow>
     fpos (Stream d) < fpos (Stream d1) \<and> fpos (Stream d1) \<le> length (fdata (Stream d)) \<and>
     fdata (Stream d1) = fdata (Stream d)"
proof -
  assume a: "GetNextHeader d = (Some header, d1)"
  obtain ob s where f: "fgets 1024 (Stream d) = (ob, s)" by (cases "fgets 1024 (Stream d)")
  with a have "ob = Some header" and "d1 = d\<lparr>Stream := s\<rparr>"
    by (auto simp: GetNextHeader_def split: if_splits option.splits)
  with f fgets_Some_advances[of 1024 "Stream d" header s] show ?thesis by simp
qed

lemma GetNextSequence_position:
  "GetNextSequence d count = ((ok, sequence), d2) \<Longrightarrow>
     fpos (Stream d) \<le> fpos (Stream d2) \<and> fdata (Stream d2) = fdata (Stream d)"
proof -
  assume a: "GetNextSequence d count = ((ok, sequence), d2)"
  show ?thesis
  proof (cases "\<not> IsOpen d \<or> feof (Stream d)")
    case True
    with a have "d2 = d" by (auto simp: GetNextSequence_def split: if_splits)
    then show ?thesis by simp
  next
    case False
    obtain ok' sq s where l: "sequence_loop count [] (Stream d) = (ok', sq, s)"
      by (cases "sequence_loop count [] (Stream d)")
    with a False have "d2 = d\<lparr>Stream := s\<rparr>" by (auto simp: GetNextSequence_def)
    with sequence_loop_position[OF l] show ?thesis by simp
  qed
qed

text \<open>The loop of \<^verbatim>\<open>CreateIndex\<close> over the entries: it ends, successfully, when
  \<^verbatim>\<open>GetNextHeader\<close> returns false.\<close>

function index_loop :: "int \<Rightarrow> int \<Rightarrow> FastaPrivate \<Rightarrow> unit outcome \<times> FastaPrivate" where
  "index_loop lineLength byteLength d =
     (case GetNextHeader d of
        (None, d1) \<Rightarrow> (Ok (), d1)
      | (Some header, d1) \<Rightarrow>
          (let offset = ftell64 (Stream d1) in
           case GetNameFromHeader header of
             None \<Rightarrow> (Failed CouldNotParseName, d1)
           | Some name \<Rightarrow>
               (case GetNextSequence d1 None of
                  ((False, sequence), d2) \<Rightarrow> (Failed CouldNotReadSequence, d2)
                | ((True, sequence), d2) \<Rightarrow>
                    index_loop lineLength byteLength
                      (d2\<lparr>Index := Index d2 @
                         [\<lparr>Name = name, Length = to_int32 (length sequence), Offset = offset,
                           LineLength = lineLength, ByteLength = byteLength\<rparr>]\<rparr>))))"
  by pat_completeness auto

termination index_loop
proof (relation "measure (\<lambda>(lineLength, byteLength, d).
         length (fdata (Stream d)) - fpos (Stream d))", goal_cases)
  case 1
  show ?case by simp
next
  case (2 lineLength byteLength d x d1 header offset name y d2 ok sequence)
  from 2 have h: "GetNextHeader d = (Some header, d1)" by simp
  from 2 have q: "GetNextSequence d1 None = ((ok, sequence), d2)" by simp
  from GetNextHeader_Some_advances[OF h] GetNextSequence_position[OF q]
  have "fpos (Stream d) < fpos (Stream d2)" and "fpos (Stream d) < length (fdata (Stream d))"
    and "fdata (Stream d2) = fdata (Stream d)" by auto
  then show ?case by auto
qed

section \<open>The files on disk\<close>

text \<open>The environment of the reader: the files by path, and the paths that cannot
  be opened for writing.\<close>

record filesystem =
  files :: "(string \<times> string) list"
  write_protected :: "string list"

definition fopen_rb :: "filesystem \<Rightarrow> string \<Rightarrow> stream option" where
  "fopen_rb fs path =
     (case map_of (files fs) path of
        None \<Rightarrow> None
      | Some bytes \<Rightarrow> Some \<lparr>fdata = bytes, fpos = 0, feof = False\<rparr>)"

text \<open>\<^verbatim>\<open>fopen(path, "wb")\<close> creates the file or truncates it.\<close>

definition fopen_wb :: "filesystem \<Rightarrow> string \<Rightarrow> filesystem option" where
  "fopen_wb fs path =
     (if path \<in> set (write_protected fs) then None
      else Some (fs\<lparr>files := (path, []) # filter (\<lambda>(p, bytes). p \<noteq> path) (files fs)\<rparr>))"

text \<open>\<^verbatim>\<open>fputs\<close> of a C string: appended to the file of a stream open for writing;
  refused (a negative result, here \<open>False\<close>) on a stream open for reading.\<close>

definition fputs :: "string \<Rightarrow> index_stream \<Rightarrow> filesystem \<Rightarrow> bool \<times> filesystem" where
  "fputs str ixs fs =
     (case ixs of
        Reading s \<Rightarrow> (False, fs)
      | Writing path \<Rightarrow>
          (True, fs\<lparr>files := map (\<lambda>(p, bytes). if p = path then (p, bytes @ c_str str) else (p, bytes))
                               (files fs)\<rparr>))"

section \<open>Writing the index\<close>

text \<open>\<^verbatim>\<open>operator<<\<close> for an integer: decimal digits, a minus sign before a negative
  number.\<close>

definition digit_char :: "nat \<Rightarrow> char" where
  "digit_char n = char_of (48 + n)"

fun show_nat :: "nat \<Rightarrow> string" where
  "show_nat n = (if n < 10 then [digit_char n] else show_nat (n div 10) @ [digit_char (n mod 10)])"

definition show_int :: "int \<Rightarrow> string" where
  "show_int i = (if i < 0 then CHR ''-'' # show_nat (nat (- i)) else show_nat (nat i))"

definition index_line :: "FastaIndexData \<Rightarrow> string" where
  "index_line data =
     Name data @ [TAB] @ show_int (Length data) @ [TAB] @ show_int (Offset data) @ [TAB] @
     show_int (LineLength data) @ [TAB] @ show_int (ByteLength data) @ [LF]"

fun write_loop :: "FastaIndexData list \<Rightarrow> index_stream \<Rightarrow> bool \<Rightarrow> filesystem \<Rightarrow> bool \<times> filesystem" where
  "write_loop [] ixs success fs = (success, fs)"
| "write_loop (data # rest) ixs success fs =
     (case fputs (index_line data) ixs fs of
        (ok, fs') \<Rightarrow> write_loop rest ixs (success \<and> ok) fs')"

definition WriteIndexData :: "FastaPrivate \<Rightarrow> filesystem \<Rightarrow> bool \<times> filesystem" where
  "WriteIndexData d fs =
     (if \<not> IsIndexOpen d then (False, fs)
      else write_loop (Index d) (IndexStream d) True fs)"

text \<open>\<^verbatim>\<open>CreateIndex\<close> up to the end of its loop: the checks, the measurement of
  the first sequence line and the entries.  The reader is returned as the code
  leaves it, also when it returns false.\<close>

definition build_index :: "FastaPrivate \<Rightarrow> unit outcome \<times> FastaPrivate" where
  "build_index d =
     (if \<not> IsOpen d then (Failed FileNotOpen, d)
      else case Rewind d of
        (False, d0) \<Rightarrow> (Failed RewindFailed, d0)
      | (True, d0) \<Rightarrow>
         (let d1 = d0\<lparr>Index := []\<rparr> in
          case fgets 1024 (Stream d1) of
            (None, s) \<Rightarrow> (Failed CouldNotReadFromFile, d1\<lparr>Stream := s\<rparr>)
          | (Some buffer, s) \<Rightarrow>
             (let d2 = d1\<lparr>Stream := s\<rparr> in
              if feof s then (Failed UnexpectedEndOfFile, d2)
              else if first_char buffer \<noteq> GT then (Failed ExpectedHeader, d2)
              else case first_line_loop (drop (fpos s) (fdata s)) 0 0 of
                (lineLength, byteLength) \<Rightarrow>
                  (case Rewind d2 of
                     (False, d3) \<Rightarrow> (Failed RewindFailed, d3)
                   | (True, d3) \<Rightarrow> index_loop lineLength (byteLength + 1) d3))))"

text \<open>\<^verbatim>\<open>CreateIndex\<close>: the index is built, then the index file is opened unless its
  name is empty, the entries are written and the index file is closed.  The result
  carries the reader and the disk as the call leaves them.\<close>

definition CreateIndex ::
  "FastaPrivate \<Rightarrow> filesystem \<Rightarrow> string \<Rightarrow> unit outcome \<times> FastaPrivate \<times> filesystem" where
  "CreateIndex d fs indexFilename =
     (case build_index d of
        (Failed e, d4) \<Rightarrow> (Failed e, d4, fs)
      | (Aborted a, d4) \<Rightarrow> (Aborted a, d4, fs)
      | (Ok u, d4) \<Rightarrow>
          (case (if indexFilename \<noteq> []
                 then (case fopen_wb fs indexFilename of
                         None \<Rightarrow> None
                       | Some fs1 \<Rightarrow>
                           Some (d4\<lparr>IndexStream := Writing indexFilename, IsIndexOpen := True\<rparr>, fs1))
                 else Some (d4, fs)) of
             None \<Rightarrow> (Failed CouldNotOpenIndex, d4, fs)
           | Some (d5, fs1) \<Rightarrow>
               (case WriteIndexData d5 fs1 of
                  (False, fs2) \<Rightarrow> (Failed CouldNotWriteIndex, d5, fs2)
                | (True, fs2) \<Rightarrow> (Ok (), d5\<lparr>HasIndex := True, IsIndexOpen := False\<rparr>, fs2))))"

section \<open>Access through the index, and the sequential fallback\<close>

text \<open>\<^verbatim>\<open>GetLength\<close>.  \<^verbatim>\<open>Index.at(refId)\<close> converts \<^verbatim>\<open>refId\<close> to \<^verbatim>\<open>size_t\<close> and throws
  \<^verbatim>\<open>std::out_of_range\<close> past the end of the vector.\<close>

definition GetLength :: "FastaPrivate \<Rightarrow> int \<Rightarrow> int outcome" where
  "GetLength d refId =
     (if \<not> IsOpen d then Failed FileNotOpen
      else if \<not> HasIndex d \<and> Index d = [] then Failed NoIndexData
      else if to_size_t refId \<ge> length (Index d) then Aborted OutOfRangeException
      else Ok (Length (Index d ! to_size_t refId)))"

text \<open>The loop \<^verbatim>\<open>while (currentId != refId)\<close> of the sequential fallback, for the
  number of rounds left; the results of \<^verbatim>\<open>GetNextHeader\<close> and
  \<^verbatim>\<open>GetNextSequence\<close> are not looked at.\<close>

fun skip_entries :: "nat \<Rightarrow> string \<Rightarrow> FastaPrivate \<Rightarrow> string \<times> FastaPrivate" where
  "skip_entries 0 sequence d = (sequence, d)"
| "skip_entries (Suc n) sequence d =
     (case GetNextHeader d of (h, d1) \<Rightarrow>
        (case GetNextSequence d1 None of ((ok, sequence'), d2) \<Rightarrow>
           skip_entries n sequence' d2))"

text \<open>The first entry and the loop.  \<^verbatim>\<open>currentId\<close> counts up from 0, so a negative
  \<^verbatim>\<open>refId\<close> is only met after \<^verbatim>\<open>++currentId\<close> has overflowed.\<close>

definition read_entry :: "FastaPrivate \<Rightarrow> int \<Rightarrow> (string \<times> FastaPrivate) outcome" where
  "read_entry d refId =
     (case GetNextHeader d of (h, d1) \<Rightarrow>
        (case GetNextSequence d1 None of ((ok, sequence), d2) \<Rightarrow>
           if refId < 0 then Aborted SignedOverflow
           else Ok (skip_entries (nat refId) sequence d2)))"

text \<open>The values of an \<^verbatim>\<open>int64_t\<close>.\<close>

definition int64_range :: "int \<Rightarrow> bool" where
  "int64_range i = (- (2 ^ 63) \<le> i \<and> i < 2 ^ 63)"

text \<open>\<^verbatim>\<open>GetBase\<close>.  The seek position is computed in \<^verbatim>\<open>int64_t\<close>: the product
  \<^verbatim>\<open>lines * referenceData.ByteLength\<close>, its sum with the offset and the sum with
  \<^verbatim>\<open>lineOffset\<close>.  A result outside the range of the type is a signed overflow,
  which is undefined behaviour.\<close>

definition GetBase :: "FastaPrivate \<Rightarrow> int \<Rightarrow> int \<Rightarrow> char outcome \<times> FastaPrivate" where
  "GetBase d refId position =
     (if \<not> IsOpen d then (Failed FileNotOpen, d)
      else if HasIndex d \<and> Index d \<noteq> [] then
        (if refId < 0 \<or> refId \<ge> int (length (Index d)) then (Failed InvalidRefId, d)
         else
           (let referenceData = Index d ! nat refId in
            if position < 0 \<or> position > Length referenceData then (Failed InvalidPosition, d)
            else if LineLength referenceData = 0 then (Aborted DivisionByZero, d)
            else
              (let lines = c_div position (LineLength referenceData);
                   lineOffset = c_mod position (LineLength referenceData);
                   product = lines * ByteLength referenceData;
                   seekTo = Offset referenceData + product + lineOffset
               in if int64_range product \<and> int64_range (Offset referenceData + product) \<and>
                     int64_range seekTo
                  then (case fseek64 (Stream d) seekTo of
                          None \<Rightarrow> (Failed CouldNotSeek, d)
                        | Some s \<Rightarrow>
                            (case fgetc s of (r, s') \<Rightarrow> (Ok (to_char r), d\<lparr>Stream := s'\<rparr>)))
                  else (Aborted SignedOverflow, d))))
      else
        (case Rewind d of
           (False, d0) \<Rightarrow> (Failed RewindFailed, d0)
         | (True, d0) \<Rightarrow>
            (case read_entry d0 refId of
               Aborted a \<Rightarrow> (Aborted a, d0)
             | Failed e \<Rightarrow> (Failed e, d0)
             | Ok (sequence, d1) \<Rightarrow>
                 if 0 \<le> position \<and> nat position \<le> length sequence
                 then (if nat position < length sequence
                       then (Ok (sequence ! nat position), d1)
                       else (Aborted OutOfRangeException, d1))
                 else (Failed CouldNotGetSequence, d1))))"

text \<open>\<^verbatim>\<open>std::string::substr(pos, n)\<close> with both arguments converted to \<^verbatim>\<open>size_t\<close>:
  it throws when \<open>pos\<close> is past the end, and clips \<open>n\<close>.\<close>

definition substr :: "string \<Rightarrow> int \<Rightarrow> int \<Rightarrow> string outcome" where
  "substr s pos n =
     (if to_size_t pos > length s then Aborted OutOfRangeException
      else Ok (take (to_size_t n) (drop (to_size_t pos) s)))"

definition GetSequence :: "FastaPrivate \<Rightarrow> int \<Rightarrow> int \<Rightarrow> int \<Rightarrow> string outcome \<times> FastaPrivate" where
  "GetSequence d refId start stop =
     (if \<not> IsOpen d then (Failed FileNotOpen, d)
      else if HasIndex d \<and> Index d \<noteq> [] then
        (if refId < 0 \<or> refId \<ge> int (length (Index d)) then (Failed InvalidRefId, d)
         else
           (let referenceData = Index d ! nat refId in
            if start < 0 \<or> start > stop \<or> stop > Length referenceData
            then (Failed InvalidPosition, d)
            else case fseek64 (Stream d) (Offset referenceData) of
                   None \<Rightarrow> (Failed CouldNotSeek, d)
                 | Some s \<Rightarrow>
                    (let seqLength = (stop - start) + 1 in
                     case GetNextSequence (d\<lparr>Stream := s\<rparr>) (Some (nat (stop + 1))) of
                       ((False, fullSequence), d1) \<Rightarrow> (Failed CouldNotReadSequence, d1)
                     | ((True, fullSequence), d1) \<Rightarrow> (substr fullSequence start seqLength, d1))))
      else
        (case Rewind d of
           (False, d0) \<Rightarrow> (Failed RewindFailed, d0)
         | (True, d0) \<Rightarrow>
            (case read_entry d0 refId of
               Aborted a \<Rightarrow> (Aborted a, d0)
             | Failed e \<Rightarrow> (Failed e, d0)
             | Ok (fullSequence, d1) \<Rightarrow>
                 if 0 \<le> stop \<and> nat stop \<le> length fullSequence
                 then (let seqLength = (stop - start) + 1
                       in (substr fullSequence start seqLength, d1))
                 else (Failed CouldNotGetSequence, d1))))"

section \<open>Loading the index\<close>

text \<open>The \<^verbatim>\<open>std::stringstream\<close> of \<^verbatim>\<open>LoadIndexData\<close>: its characters, the get
  position and the two state bits the extractions set.  \<^verbatim>\<open>str(std::string())\<close>
  empties the buffer and leaves the state bits alone.\<close>

record sstream =
  sbuf :: string
  sget :: nat
  eofbit :: bool
  failbit :: bool

definition good :: "sstream \<Rightarrow> bool" where
  "good ss = (\<not> eofbit ss \<and> \<not> failbit ss)"

definition str_clear :: "sstream \<Rightarrow> sstream" where
  "str_clear ss = ss\<lparr>sbuf := [], sget := 0\<rparr>"

text \<open>\<^verbatim>\<open>indexBuffer << buffer\<close>: nothing is inserted unless the stream is good.\<close>

definition insert_c_str :: "sstream \<Rightarrow> string \<Rightarrow> sstream" where
  "insert_c_str ss buffer =
     (if good ss then ss\<lparr>sbuf := sbuf ss @ buffer\<rparr> else ss\<lparr>failbit := True\<rparr>)"

text \<open>\<^verbatim>\<open>std::isspace\<close> in the C locale.\<close>

definition isspace :: "char \<Rightarrow> bool" where
  "isspace c = (c = SPC \<or> c = TAB \<or> c = LF \<or> c = CHR 0x0B \<or> c = CHR 0x0C \<or> c = CR)"

definition isdigit :: "char \<Rightarrow> bool" where
  "isdigit c = (48 \<le> (of_char c :: nat) \<and> (of_char c :: nat) \<le> 57)"

text \<open>The sentry of a formatted extraction: it fails on a stream that is not good,
  skips white space, and fails with both bits set when nothing follows.\<close>

definition sentry :: "sstream \<Rightarrow> bool \<times> sstream" where
  "sentry ss =
     (if \<not> good ss then (False, ss\<lparr>failbit := True\<rparr>)
      else
        (let rest = drop (sget ss) (sbuf ss);
             n = length (takeWhile isspace rest)
         in if n = length rest
            then (False, ss\<lparr>sget := sget ss + n, eofbit := True, failbit := True\<rparr>)
            else (True, ss\<lparr>sget := sget ss + n\<rparr>)))"

text \<open>\<^verbatim>\<open>indexBuffer >> data.Name\<close>: \<open>None\<close> when the string is left as it was.\<close>

definition extract_string :: "sstream \<Rightarrow> string option \<times> sstream" where
  "extract_string ss =
     (case sentry ss of
        (False, ss1) \<Rightarrow> (None, ss1)
      | (True, ss1) \<Rightarrow>
          (let rest = drop (sget ss1) (sbuf ss1);
               tok = takeWhile (\<lambda>c. \<not> isspace c) rest
           in (Some tok, ss1\<lparr>sget := sget ss1 + length tok,
                              eofbit := (length tok = length rest)\<rparr>)))"

definition digit_val :: "char \<Rightarrow> int" where
  "digit_val c = int (of_char c) - 48"

definition digits_val :: "string \<Rightarrow> int" where
  "digits_val ds = foldl (\<lambda>a c. 10 * a + digit_val c) 0 ds"

text \<open>\<^verbatim>\<open>indexBuffer >> n\<close> for a signed integer type with the range \<open>lo .. hi\<close>:
  \<open>None\<close> when the sentry fails and \<open>n\<close> is left as it was; otherwise the value
  stored: an optional sign and decimal digits, 0 with \<^verbatim>\<open>failbit\<close> when there is no
  digit, the nearest bound with \<^verbatim>\<open>failbit\<close> when the number is out of range.\<close>

definition extract_int :: "int \<Rightarrow> int \<Rightarrow> sstream \<Rightarrow> int option \<times> sstream" where
  "extract_int lo hi ss =
     (case sentry ss of
        (False, ss1) \<Rightarrow> (None, ss1)
      | (True, ss1) \<Rightarrow>
          (let rest = drop (sget ss1) (sbuf ss1);
               neg = (take 1 rest = ''-'');
               signlen = (if take 1 rest = ''-'' \<or> take 1 rest = ''+'' then 1 else 0);
               ds = takeWhile isdigit (drop signlen rest);
               used = signlen + length ds;
               v = (if neg then - digits_val ds else digits_val ds);
               ss2 = ss1\<lparr>sget := sget ss1 + used, eofbit := (used = length rest)\<rparr>
           in if ds = [] then (Some 0, ss2\<lparr>failbit := True\<rparr>)
              else if v < lo then (Some lo, ss2\<lparr>failbit := True\<rparr>)
              else if hi < v then (Some hi, ss2\<lparr>failbit := True\<rparr>)
              else (Some v, ss2)))"

text \<open>The five extractions of one line.  \<^verbatim>\<open>data.Name\<close> starts as the empty string;
  the four integers start uninitialised, and storing an entry with one of them
  never written is undefined behaviour.\<close>

definition parse_index_line :: "sstream \<Rightarrow> FastaIndexData outcome \<times> sstream" where
  "parse_index_line ss =
     (case extract_string ss of (name, ss1) \<Rightarrow>
      case extract_int (- (2 ^ 31)) (2 ^ 31 - 1) ss1 of (len, ss2) \<Rightarrow>
      case extract_int (- (2 ^ 63)) (2 ^ 63 - 1) ss2 of (off, ss3) \<Rightarrow>
      case extract_int (- (2 ^ 31)) (2 ^ 31 - 1) ss3 of (ll, ss4) \<Rightarrow>
      case extract_int (- (2 ^ 31)) (2 ^ 31 - 1) ss4 of (bl, ss5) \<Rightarrow>
        (case (len, off, ll, bl) of
           (Some l, Some o', Some ll', Some bl') \<Rightarrow>
             (Ok \<lparr>Name = (case name of None \<Rightarrow> [] | Some n \<Rightarrow> n), Length = l, Offset = o',
                  LineLength = ll', ByteLength = bl'\<rparr>, ss5)
         | _ \<Rightarrow> (Aborted IndeterminateValue, ss5)))"

text \<open>The loop of \<^verbatim>\<open>LoadIndexData\<close>; \<open>Ok False\<close> is its \<^verbatim>\<open>return false\<close> after a
  failed \<^verbatim>\<open>fgets\<close>.\<close>

function load_loop ::
  "sstream \<Rightarrow> stream \<Rightarrow> FastaIndexData list \<Rightarrow> bool outcome \<times> stream \<times> FastaIndexData list" where
  "load_loop indexBuffer s index =
     (case fgetc s of (r, s1) \<Rightarrow>
        (let c = to_char r in
         if c = LF then (Ok True, s1, index)
         else if feof s1 then (Ok True, s1, index)
         else
           (let s2 = ungetc c s1;
                indexBuffer1 = str_clear indexBuffer
            in case fgets 1024 s2 of
                 (None, s3) \<Rightarrow> (Ok False, s3, index)
               | (Some buffer, s3) \<Rightarrow>
                   (case parse_index_line (insert_c_str indexBuffer1 buffer) of
                      (Ok data, indexBuffer2) \<Rightarrow> load_loop indexBuffer2 s3 (index @ [data])
                    | (Failed e, indexBuffer2) \<Rightarrow> (Failed e, s3, index)
                    | (Aborted a, indexBuffer2) \<Rightarrow> (Aborted a, s3, index)))))"
  by pat_completeness auto

termination load_loop
proof (relation "measure (\<lambda>(indexBuffer, s, index). length (fdata s) - fpos s)", goal_cases)
  case 1
  show ?case by simp
next
  case (2 indexBuffer s index x y xa xb xc xd ya x2 xe yb x1)
  from 2 have a: "fgetc s = (x, y)" by simp
  note p = peek_keeps_position[OF a]
  from 2 have "fgets 1024 (ungetc (to_char x) y) = (Some x2, ya)" by simp
  from fgets_Some_advances[OF this] p
  have "fpos s < fpos ya" and "fpos ya \<le> length (fdata s)" and "fdata ya = fdata s"
    by auto
  then show ?case by auto
qed

definition LoadIndexData :: "FastaPrivate \<Rightarrow> bool outcome \<times> FastaPrivate" where
  "LoadIndexData d =
     (if \<not> IsIndexOpen d then (Ok False, d)
      else case IndexStream d of
        Writing path \<Rightarrow> (Ok False, d\<lparr>Index := [], HasIndex := False\<rparr>)
      | Reading s \<Rightarrow>
          (case load_loop \<lparr>sbuf = [], sget = 0, eofbit = False, failbit = False\<rparr> s [] of
             (Ok True, s', index) \<Rightarrow> (Ok True, d\<lparr>IndexStream := Reading s', Index := index\<rparr>)
           | (Ok False, s', index) \<Rightarrow>
               (Ok False, d\<lparr>IndexStream := Reading s', Index := index, HasIndex := False\<rparr>)
           | (Failed e, s', index) \<Rightarrow> (Failed e, d\<lparr>IndexStream := Reading s', Index := index\<rparr>)
           | (Aborted a, s', index) \<Rightarrow> (Aborted a, d\<lparr>IndexStream := Reading s', Index := index\<rparr>)))"

definition Open :: "FastaPrivate \<Rightarrow> filesystem \<Rightarrow> string \<Rightarrow> string \<Rightarrow> unit outcome \<times> FastaPrivate" where
  "Open d fs filename indexFilename =
     (case fopen_rb fs filename of
        None \<Rightarrow> (Failed CouldNotOpenFasta, d)
      | Some s \<Rightarrow>
         (let d1 = d\<lparr>Stream := s, IsOpen := True\<rparr> in
          if indexFilename \<noteq> [] then
            (case fopen_rb fs indexFilename of
               None \<Rightarrow> (Failed CouldNotOpenIndex, d1)
             | Some ixs \<Rightarrow>
                (case LoadIndexData (d1\<lparr>IndexStream := Reading ixs, IsIndexOpen := True\<rparr>) of
                   (Ok True, d2) \<Rightarrow> (Ok (), d2\<lparr>HasIndex := True\<rparr>)
                 | (Ok False, d2) \<Rightarrow> (Failed CouldNotLoadIndex, d2\<lparr>HasIndex := False\<rparr>)
                 | (Failed e, d2) \<Rightarrow> (Failed e, d2)
                 | (Aborted a, d2) \<Rightarrow> (Aborted a, d2)))
          else (Ok (), d1)))"

text \<open>The reader as its constructor leaves it: nothing open, no index.  The two
  stream members are not initialised; they are not read before \<^verbatim>\<open>Open\<close> or
  \<^verbatim>\<open>CreateIndex\<close> has set them.\<close>

definition FastaPrivate_new :: FastaPrivate where
  "FastaPrivate_new =
     \<lparr>Stream = \<lparr>fdata = [], fpos = 0, feof = False\<rparr>, IsOpen = False,
      IndexStream = Writing [], HasIndex = False, IsIndexOpen = False, Index = []\<rparr>"


section \<open>Example readers\<close>

text \<open>A FASTA file of one record, \<open>>a\<close> with the sequence \<open>AC\<close> on one line, a
  reader open on it, and the same reader with the index \<^verbatim>\<open>CreateIndex\<close> builds
  for it.\<close>

definition small_fasta :: string where
  "small_fasta = ''>a'' @ [LF] @ ''AC'' @ [LF]"

definition small_reader :: FastaPrivate where
  "small_reader =
     FastaPrivate_new\<lparr>Stream := \<lparr>fdata = small_fasta, fpos = 0, feof = False\<rparr>, IsOpen := True\<rparr>"

definition small_indexed :: FastaPrivate where
  "small_indexed =
     small_reader\<lparr>HasIndex := True,
        Index := [\<lparr>Name = ''a'', Length = 2, Offset = 3, LineLength = 2, ByteLength = 3\<rparr>]\<rparr>"

lemmas reader_defs =
  small_fasta_def small_reader_def small_indexed_def FastaPrivate_new_def

lemma c_div_nonneg: "0 \<le> a \<Longrightarrow> 0 < b \<Longrightarrow> c_div a b = a div b"
  by (cases "a = 0") (auto simp: c_div_def)

lemma c_mod_nonneg: "0 \<le> a \<Longrightarrow> 0 < b \<Longrightarrow> c_mod a b = a mod b"
  by (simp add: c_mod_def c_div_nonneg minus_mult_div_eq_mod)

text \<open>
  C2 (the code at the failing input).  \<^verbatim>\<open>GetLength\<close> does not validate \<^verbatim>\<open>refId\<close> as
  \<^verbatim>\<open>GetBase\<close> and \<^verbatim>\<open>GetSequence\<close> do: on an indexed reader with one entry, a record
  id of 1 or of -1 leaves \<^verbatim>\<open>GetLength\<close> through the \<^verbatim>\<open>std::out_of_range\<close> that
  \<^verbatim>\<open>Index.at(refId)\<close> throws, where \<^verbatim>\<open>GetBase\<close> returns false for the same id.  A
  valid id gives the entry's length, and a reader with no index returns false.
\<close>

theorem GetLength_throws_out_of_range:
  "GetLength small_indexed 1 = Aborted OutOfRangeException \<and>
   GetLength small_indexed (- 1) = Aborted OutOfRangeException \<and>
   GetLength small_indexed 0 = Ok 2 \<and>
   GetLength small_reader 0 = Failed NoIndexData \<and>
   fst (GetBase small_indexed 1 0) = Failed InvalidRefId"
  by (simp add: GetLength_def GetBase_def to_size_t_def reader_defs)

text \<open>
  C6.  On an open, indexed reader and for a valid record id, \<^verbatim>\<open>GetBase\<close> returns
  false with the invalid-position diagnostic exactly for the positions below 0 or
  above the entry's length; every position from 0 up to and including the length
  passes the check.
\<close>

theorem GetBase_position_check:
  assumes "IsOpen d" and "HasIndex d" and "0 \<le> refId" and "refId < int (length (Index d))"
  shows "(fst (GetBase d refId position) = Failed InvalidPosition) =
         (position < 0 \<or> Length (Index d ! nat refId) < position)"
proof -
  from assms have ne: "Index d \<noteq> []" by auto
  show ?thesis
  proof (cases "position < 0 \<or> Length (Index d ! nat refId) < position")
    case True
    with assms ne show ?thesis by (auto simp: GetBase_def Let_def)
  next
    case False
    with assms ne show ?thesis
      by (auto simp: GetBase_def Let_def split: option.splits prod.splits)
  qed
qed

theorem GetBase_position_check_witness:
  "fst (GetBase small_indexed 0 0) \<noteq> Failed InvalidPosition \<and>
   fst (GetBase small_indexed 0 2) \<noteq> Failed InvalidPosition \<and>
   fst (GetBase small_indexed 0 3) = Failed InvalidPosition \<and>
   fst (GetBase small_indexed 0 (- 1)) = Failed InvalidPosition"
  using GetBase_position_check[of small_indexed 0 0]
    GetBase_position_check[of small_indexed 0 2]
    GetBase_position_check[of small_indexed 0 3]
    GetBase_position_check[of small_indexed 0 "- 1"]
  by (simp add: reader_defs)

text \<open>The offset \<^verbatim>\<open>GetBase\<close> seeks to, with C's division and remainder, and the
  condition under which its three \<^verbatim>\<open>int64_t\<close> operations stay in range.\<close>

definition seek_target :: "FastaIndexData \<Rightarrow> int \<Rightarrow> int" where
  "seek_target e position =
     Offset e + c_div position (LineLength e) * ByteLength e + c_mod position (LineLength e)"




lemma seek_target_positive:
  "0 \<le> position \<Longrightarrow> 0 < LineLength e \<Longrightarrow>
   seek_target e position =
     Offset e + (position div LineLength e) * ByteLength e + position mod LineLength e"
  by (simp add: seek_target_def c_div_nonneg c_mod_nonneg)




text \<open>An index file whose only line gives a line length of 0, beside the FASTA
  file it claims to index.\<close>

definition zero_width_disk :: filesystem where
  "zero_width_disk =
     \<lparr>files = [(''a.fa'', small_fasta),
               (''a.fai'', ''a'' @ [TAB] @ ''2'' @ [TAB] @ ''3'' @ [TAB] @ ''0'' @ [TAB] @ ''3'' @ [LF])],
      write_protected = []\<rparr>"

definition zero_width_reader :: FastaPrivate where
  "zero_width_reader = snd (Open FastaPrivate_new zero_width_disk ''a.fa'' ''a.fai'')"

text \<open>
  C10.  On an open, indexed reader, for a valid record id and an accepted position,
  \<^verbatim>\<open>GetBase\<close> runs into the division by zero exactly when the entry's line length
  is 0.  \<^verbatim>\<open>LoadIndexData\<close> stores such an entry as it reads it (the witness loads
  one).
\<close>

theorem GetBase_zero_line_length:
  assumes "IsOpen d" and "HasIndex d" and "0 \<le> refId" and "refId < int (length (Index d))"
    and "0 \<le> position" and "position \<le> Length (Index d ! nat refId)"
  shows "(fst (GetBase d refId position) = Aborted DivisionByZero) =
         (LineLength (Index d ! nat refId) = 0)"
proof -
  from assms have ne: "Index d \<noteq> []" by auto
  with assms show ?thesis
    by (auto simp: GetBase_def Let_def split: option.splits prod.splits)
qed

lemma zero_width_Open:
  "Open FastaPrivate_new zero_width_disk ''a.fa'' ''a.fai'' =
     (Ok (),
      \<lparr>Stream = \<lparr>fdata = small_fasta, fpos = 0, feof = False\<rparr>, IsOpen = True,
       IndexStream = Reading \<lparr>fdata = ''a'' @ [TAB] @ ''2'' @ [TAB] @ ''3'' @ [TAB] @ ''0'' @ [TAB] @ ''3'' @ [LF],
                               fpos = 10, feof = True\<rparr>,
       HasIndex = True, IsIndexOpen = True,
       Index = [\<lparr>Name = ''a'', Length = 2, Offset = 3, LineLength = 0, ByteLength = 3\<rparr>]\<rparr>)"
  by code_simp

theorem GetBase_zero_line_length_witness:
  "fst (Open FastaPrivate_new zero_width_disk ''a.fa'' ''a.fai'') = Ok () \<and>
   LineLength (Index zero_width_reader ! 0) = 0 \<and>
   fst (GetBase zero_width_reader 0 1) = Aborted DivisionByZero \<and>
   fst (GetBase small_indexed 0 1) \<noteq> Aborted DivisionByZero"
proof -
  have z: "IsOpen zero_width_reader" "HasIndex zero_width_reader"
    "Index zero_width_reader =
       [\<lparr>Name = ''a'', Length = 2, Offset = 3, LineLength = 0, ByteLength = 3\<rparr>]"
    by (simp_all add: zero_width_reader_def zero_width_Open)
  have s: "IsOpen small_indexed" "HasIndex small_indexed"
    "Index small_indexed =
       [\<lparr>Name = ''a'', Length = 2, Offset = 3, LineLength = 2, ByteLength = 3\<rparr>]"
    by (simp_all add: reader_defs)
  show ?thesis
    using GetBase_zero_line_length[of zero_width_reader 0 1]
      GetBase_zero_line_length[of small_indexed 0 1]
    by (simp add: z s zero_width_Open)
qed


section \<open>The data file format\<close>

text \<open>
  The data file of the specification: records of \<open>>\<close>, a name, an optional
  description and a line terminator, followed by lines of sequence characters,
  each with the same terminator, \<open>\n\<close> or \<open>\r\n\<close>.  A name is a non-empty run of
  visible characters; a description starts with a blank; a sequence line is a
  non-empty run of visible characters that does not start with \<open>>\<close>.  Every line
  fits the reader's buffer of 1024 bytes, a record's sequence fits the 32-bit
  length field of its index entry, and the file has fewer than \<open>2^63\<close> bytes, so
  that every position in it is a value of the 64-bit file offset.
\<close>

record fasta_record =
  rec_name :: string
  rec_desc :: string
  rec_lines :: "string list"

definition header_line :: "string \<Rightarrow> fasta_record \<Rightarrow> string" where
  "header_line nl r = GT # rec_name r @ rec_desc r @ nl"

definition wrapped :: "string \<Rightarrow> string list \<Rightarrow> string" where
  "wrapped nl ls = concat (map (\<lambda>l. l @ nl) ls)"

definition render_record :: "string \<Rightarrow> fasta_record \<Rightarrow> string" where
  "render_record nl r = header_line nl r @ wrapped nl (rec_lines r)"

definition render :: "string \<Rightarrow> fasta_record list \<Rightarrow> string" where
  "render nl rs = concat (map (render_record nl) rs)"

text \<open>The de-wrapped sequence of a record.\<close>

definition dewrapped :: "fasta_record \<Rightarrow> string" where
  "dewrapped r = concat (rec_lines r)"

definition wf_newline :: "string \<Rightarrow> bool" where
  "wf_newline nl = (nl = [LF] \<or> nl = [CR, LF])"

definition wf_line :: "string \<Rightarrow> string \<Rightarrow> bool" where
  "wf_line nl l = (l \<noteq> [] \<and> list_all isgraph l \<and> hd l \<noteq> GT \<and> length l + length nl \<le> 1023)"

definition wf_record :: "string \<Rightarrow> fasta_record \<Rightarrow> bool" where
  "wf_record nl r =
     (rec_name r \<noteq> [] \<and> list_all isgraph (rec_name r) \<and>
      (rec_desc r = [] \<or> is_blank (hd (rec_desc r))) \<and>
      list_all (\<lambda>c. c \<noteq> LF \<and> c \<noteq> NUL) (rec_desc r) \<and>
      length (header_line nl r) \<le> 1023 \<and>
      list_all (wf_line nl) (rec_lines r) \<and>
      length (dewrapped r) < 2 ^ 31)"

definition wf_fasta :: "string \<Rightarrow> fasta_record list \<Rightarrow> bool" where
  "wf_fasta nl rs =
     (wf_newline nl \<and> rs \<noteq> [] \<and> list_all (wf_record nl) rs \<and> length (render nl rs) < 2 ^ 63)"

text \<open>The index of such a file: one entry per record, in the order of the file,
  with the record's name, the length of its de-wrapped sequence and the offset of
  the byte after its header line; the line geometry is the same in every entry.\<close>

fun index_from :: "string \<Rightarrow> int \<Rightarrow> int \<Rightarrow> nat \<Rightarrow> fasta_record list \<Rightarrow> FastaIndexData list" where
  "index_from nl ll bl base [] = []"
| "index_from nl ll bl base (r # rs) =
     \<lparr>Name = rec_name r, Length = int (length (dewrapped r)),
      Offset = int (base + length (header_line nl r)), LineLength = ll, ByteLength = bl\<rparr>
     # index_from nl ll bl (base + length (render_record nl r)) rs"

text \<open>The line geometry \<^verbatim>\<open>CreateIndex\<close> measures on the bytes after the first header
  line.\<close>

definition measured_geometry :: "string \<Rightarrow> fasta_record list \<Rightarrow> int \<times> int" where
  "measured_geometry nl rs =
     (case first_line_loop (drop (length (header_line nl (hd rs))) (render nl rs)) 0 0 of
        (ll, bl) \<Rightarrow> (ll, bl + 1))"

definition expected_index :: "string \<Rightarrow> fasta_record list \<Rightarrow> FastaIndexData list" where
  "expected_index nl rs =
     (case measured_geometry nl rs of (ll, bl) \<Rightarrow> index_from nl ll bl 0 rs)"

section \<open>Reading a well-formed file\<close>

declare sequence_loop.simps [simp del] index_loop.simps [simp del] load_loop.simps [simp del]

lemma isgraph_facts:
  "isgraph c \<Longrightarrow> c \<noteq> LF \<and> c \<noteq> CR \<and> c \<noteq> NUL \<and> c \<noteq> EOFC \<and> c \<noteq> SPC \<and> c \<noteq> TAB"
  by (auto simp: isgraph_def)

lemma isgraph_not_blank: "isgraph c \<Longrightarrow> \<not> is_blank c"
  by (auto simp: isgraph_def is_blank_def)

lemma isgraph_nonneg: "isgraph c \<Longrightarrow> is_nonneg_char c"
  by (auto simp: isgraph_def is_nonneg_char_def)

lemma all_isgraph_facts:
  "list_all isgraph l \<Longrightarrow> LF \<notin> set l \<and> CR \<notin> set l \<and> NUL \<notin> set l"
  using isgraph_facts by (auto simp: list_all_iff)

lemma take_line_no_newline:
  "LF \<notin> set l \<Longrightarrow> length l < k \<Longrightarrow> take_line k (l @ LF # rest) = l @ [LF]"
proof (induction l arbitrary: k)
  case Nil
  then show ?case by (cases k) auto
next
  case (Cons c l)
  then show ?case by (cases k) auto
qed

lemma take_line_nl:
  assumes "wf_newline nl" and "LF \<notin> set l" and "length l + length nl \<le> k"
  shows "take_line k (l @ nl @ rest) = l @ nl"
proof -
  from assms(1) consider "nl = [LF]" | "nl = [CR, LF]" by (auto simp: wf_newline_def)
  then show ?thesis
  proof cases
    case 1
    with assms take_line_no_newline[of l k rest] show ?thesis by simp
  next
    case 2
    with assms take_line_no_newline[of "l @ [CR]" k rest] show ?thesis by simp
  qed
qed

lemma c_str_no_NUL: "NUL \<notin> set s \<Longrightarrow> c_str s = s"
  by (auto simp: c_str_def takeWhile_eq_all_conv)

lemma Chomp_nl:
  assumes "wf_newline nl" and "l = [] \<or> (last l \<noteq> LF \<and> last l \<noteq> CR)"
  shows "Chomp (l @ nl) = l"
proof -
  have "dropWhile (\<lambda>c. c = LF \<or> c = CR) (rev l) = rev l"
    using assms(2) by (cases l rule: rev_cases) auto
  with assms(1) show ?thesis by (auto simp: Chomp_def wf_newline_def)
qed

lemma drop_at:
  "drop n xs = c # cs \<Longrightarrow> n < length xs \<and> xs ! n = c"
  by (metis drop_eq_Nil linorder_not_less list.distinct(1) hd_drop_conv_nth list.sel(1))

lemma drop_further:
  "drop n xs = ys @ zs \<Longrightarrow> drop (n + length ys) xs = zs"
  by (metis add.commute append_eq_conv_conj drop_drop)

lemma fgets_line:
  assumes "wf_newline nl" and "LF \<notin> set l" and "NUL \<notin> set l"
    and "length l + length nl \<le> 1023"
    and "drop (fpos s) (fdata s) = l @ nl @ rest"
  shows "fgets 1024 s = (Some (l @ nl), s\<lparr>fpos := fpos s + (length l + length nl)\<rparr>)"
proof -
  have got: "take_line (1024 - 1) (drop (fpos s) (fdata s)) = l @ nl"
    using take_line_nl[OF assms(1,2), of 1023 rest] assms(4,5) by simp
  have nl: "nl \<noteq> [] \<and> last nl = LF \<and> NUL \<notin> set nl"
    using assms(1) by (auto simp: wf_newline_def)
  then have "c_str (l @ nl) = l @ nl" using assms(3) by (simp add: c_str_no_NUL)
  with got nl show ?thesis by (simp add: fgets_def Let_def)
qed

lemma stream_update_swap:
  "s\<lparr>feof := b, fpos := p\<rparr> = s\<lparr>fpos := p, feof := b\<rparr>"
  by (cases s) simp

text \<open>One round of the reading loop consumes one sequence line.\<close>

lemma sequence_loop_line:
  assumes "wf_newline nl" and "wf_line nl l"
    and "drop (fpos s) (fdata s) = l @ nl @ rest"
    and "below_count (length acc) count"
  shows "sequence_loop count acc s =
           sequence_loop count (acc @ l)
             (s\<lparr>fpos := fpos s + (length l + length nl), feof := False\<rparr>)"
proof -
  from assms(2) obtain c cs where l: "l = c # cs" and g: "isgraph c" and ngt: "c \<noteq> GT"
    and all: "list_all isgraph l" and len: "length l + length nl \<le> 1023"
    by (cases l) (auto simp: wf_line_def)
  from assms(3) l have at: "fpos s < length (fdata s)" "fdata s ! fpos s = c"
    using drop_at[of "fpos s" "fdata s" c "cs @ nl @ rest"] by auto
  then have fg: "fgetc s = (Some c, s\<lparr>fpos := fpos s + 1\<rparr>)" by (simp add: fgetc_def)
  from g have ne: "c \<noteq> EOFC" using isgraph_facts by blast
  let ?s2 = "s\<lparr>feof := False\<rparr>"
  have un: "ungetc (to_char (Some c)) (s\<lparr>fpos := fpos s + 1\<rparr>) = ?s2"
    using ne by (simp add: ungetc_def to_char_def)
  have d2: "drop (fpos ?s2) (fdata ?s2) = l @ nl @ rest" using assms(3) by simp
  from all have nolf: "LF \<notin> set l" "NUL \<notin> set l" using all_isgraph_facts by auto
  note fl = fgets_line[OF assms(1) nolf len d2]
  have "last l \<noteq> LF \<and> last l \<noteq> CR"
    using all l all_isgraph_facts[OF all] last_in_set[of l] by auto
  then have ch: "Chomp (l @ nl) = l" using Chomp_nl[OF assms(1)] by simp
  have "sequence_loop count acc s =
          (case fgets 1024 ?s2 of
             (None, s3) \<Rightarrow> (False, acc, s3)
           | (Some buffer, s3) \<Rightarrow> sequence_loop count (acc @ Chomp buffer) s3)"
    by (subst sequence_loop.simps) (simp add: assms(4) fg ne ngt ungetc_def to_char_def)
  also have "\<dots> = sequence_loop count (acc @ l)
                     (s\<lparr>fpos := fpos s + (length l + length nl), feof := False\<rparr>)"
    by (simp add: fl ch stream_update_swap)
  finally show ?thesis .
qed

text \<open>At the next header or at the end of the file the loop ends.\<close>

lemma sequence_loop_end:
  assumes "drop (fpos s) (fdata s) = rest" and "rest = [] \<or> hd rest = GT"
    and "below_count (length acc) count"
  shows "sequence_loop count acc s = (True, acc, s\<lparr>feof := (rest = [])\<rparr>)"
proof (cases "rest = []")
  case True
  with assms(1) have "\<not> fpos s < length (fdata s)" by simp
  then have fg: "fgetc s = (None, s\<lparr>feof := True\<rparr>)" by (simp add: fgetc_def)
  show ?thesis
    by (subst sequence_loop.simps) (simp add: assms(3) fg ungetc_def to_char_def True)
next
  case False
  with assms(2) obtain cs where r: "rest = GT # cs" by (cases rest) auto
  with assms(1) have at: "fpos s < length (fdata s)" "fdata s ! fpos s = GT"
    using drop_at[of "fpos s" "fdata s" GT cs] by auto
  then have fg: "fgetc s = (Some GT, s\<lparr>fpos := fpos s + 1\<rparr>)" by (simp add: fgetc_def)
  show ?thesis
    by (subst sequence_loop.simps) (simp add: assms(3) fg ungetc_def to_char_def False)
qed

lemma wrapped_Cons: "wrapped nl (l # ls) = l @ nl @ wrapped nl ls"
  by (simp add: wrapped_def)

lemma wrapped_Nil: "wrapped nl [] = []"
  by (simp add: wrapped_def)

text \<open>The unbounded loop reads all the lines of a record.\<close>

lemma sequence_loop_all:
  assumes "wf_newline nl" and "list_all (wf_line nl) ls"
    and "drop (fpos s) (fdata s) = wrapped nl ls @ rest" and "rest = [] \<or> hd rest = GT"
  shows "sequence_loop None acc s =
           (True, acc @ concat ls,
            s\<lparr>fpos := fpos s + length (wrapped nl ls), feof := (rest = [])\<rparr>)"
  using assms(2,3)
proof (induction ls arbitrary: acc s)
  case Nil
  then have "drop (fpos s) (fdata s) = rest" by (simp add: wrapped_Nil)
  from sequence_loop_end[OF this assms(4), of acc None]
  show ?case by (simp add: below_count_def wrapped_Nil)
next
  case (Cons l ls)
  let ?s' = "s\<lparr>fpos := fpos s + (length l + length nl), feof := False\<rparr>"
  from Cons.prems have wl: "wf_line nl l" and wls: "list_all (wf_line nl) ls" by auto
  from Cons.prems have d: "drop (fpos s) (fdata s) = l @ nl @ (wrapped nl ls @ rest)"
    by (simp add: wrapped_Cons)
  have step: "sequence_loop None acc s = sequence_loop None (acc @ l) ?s'"
    using sequence_loop_line[OF assms(1) wl d, of acc None] by (simp add: below_count_def)
  have "drop (fpos s + length (l @ nl)) (fdata s) = wrapped nl ls @ rest"
    using drop_further[of "fpos s" "fdata s" "l @ nl" "wrapped nl ls @ rest"] d by simp
  then have d': "drop (fpos ?s') (fdata ?s') = wrapped nl ls @ rest" by simp
  from Cons.IH[OF wls d', of "acc @ l"] step
  show ?case by (simp add: wrapped_Cons add.assoc)
qed



text \<open>A file of two records wrapped at 4 characters a line, a reader open on it,
  and the records it is made of.\<close>

definition two_records :: "fasta_record list" where
  "two_records =
     [\<lparr>rec_name = ''seq1'', rec_desc = '' first'', rec_lines = [''ACGT'', ''TGCA'', ''GG'']\<rparr>,
      \<lparr>rec_name = ''seq2'', rec_desc = [], rec_lines = [''TTAA'', ''C'']\<rparr>]"

definition two_reader :: FastaPrivate where
  "two_reader =
     FastaPrivate_new\<lparr>Stream := \<lparr>fdata = render [LF] two_records, fpos = 0, feof = False\<rparr>,
                        IsOpen := True\<rparr>"

definition empty_disk :: filesystem where
  "empty_disk = \<lparr>files = [], write_protected = []\<rparr>"

section \<open>Building the index of a well-formed file\<close>

lemma render_Nil: "render nl [] = []"
  by (simp add: render_def)

lemma render_Cons:
  "render nl (r # rs) = header_line nl r @ wrapped nl (rec_lines r) @ render nl rs"
  by (simp add: render_def render_record_def)

lemma render_rest: "render nl rs = [] \<or> hd (render nl rs) = GT"
  by (cases rs) (auto simp: render_Nil render_Cons header_line_def)

lemma render_empty_iff: "(render nl rs = []) = (rs = [])"
  by (cases rs) (auto simp: render_Nil render_Cons header_line_def)


lemma length_render_record:
  "length (render_record nl r) = length (header_line nl r) + length (wrapped nl (rec_lines r))"
  by (simp add: render_record_def)

lemma header_facts:
  assumes "wf_record nl r"
  shows "LF \<notin> set (GT # rec_name r @ rec_desc r)" and "NUL \<notin> set (GT # rec_name r @ rec_desc r)"
    and "length (GT # rec_name r @ rec_desc r) + length nl \<le> 1023"
proof -
  from assms have n: "list_all isgraph (rec_name r)"
    and d: "list_all (\<lambda>c. c \<noteq> LF \<and> c \<noteq> NUL) (rec_desc r)"
    and l: "length (header_line nl r) \<le> 1023"
    by (auto simp: wf_record_def)
  from all_isgraph_facts[OF n] d
  show "LF \<notin> set (GT # rec_name r @ rec_desc r)" and "NUL \<notin> set (GT # rec_name r @ rec_desc r)"
    by (auto simp: list_all_iff)
  from l show "length (GT # rec_name r @ rec_desc r) + length nl \<le> 1023"
    by (simp add: header_line_def)
qed

lemma GetNextHeader_wf:
  assumes "wf_newline nl" and "wf_record nl r" and "IsOpen d" and "\<not> feof (Stream d)"
    and "drop (fpos (Stream d)) (fdata (Stream d)) = header_line nl r @ rest"
  shows "GetNextHeader d =
           (Some (header_line nl r),
            d\<lparr>Stream := (Stream d)\<lparr>fpos := fpos (Stream d) + length (header_line nl r)\<rparr>\<rparr>)"
proof -
  let ?h = "GT # rec_name r @ rec_desc r"
  from assms(5) have dr: "drop (fpos (Stream d)) (fdata (Stream d)) = ?h @ nl @ rest"
    by (simp add: header_line_def)
  from fgets_line[OF assms(1) header_facts[OF assms(2)] dr]
  have "fgets 1024 (Stream d) =
          (Some (header_line nl r),
           (Stream d)\<lparr>fpos := fpos (Stream d) + length (header_line nl r)\<rparr>)"
    by (simp add: header_line_def)
  with assms(3,4) show ?thesis
    by (simp add: GetNextHeader_def first_char_def header_line_def)
qed

lemma takeWhile_prefix:
  assumes "\<forall>x\<in>set xs. P x" and "ys = [] \<or> \<not> P (hd ys)"
  shows "takeWhile P (xs @ ys) = xs"
proof -
  from assms(2) have "takeWhile P ys = []" by (cases ys) auto
  with assms(1) show ?thesis by (simp add: takeWhile_append2)
qed

lemma GetNameFromHeader_wf:
  assumes "wf_newline nl" and "wf_record nl r"
  shows "GetNameFromHeader (header_line nl r) = Some (rec_name r)"
proof -
  let ?n = "rec_name r" and ?t = "rec_desc r @ nl"
  from assms(2) have ne: "?n \<noteq> []" and g: "list_all isgraph ?n"
    and b: "rec_desc r = [] \<or> is_blank (hd (rec_desc r))"
    by (auto simp: wf_record_def)
  from g have nb: "\<forall>c\<in>set ?n. \<not> is_blank c"
    using isgraph_not_blank by (auto simp: list_all_iff)
  from ne nb have "\<not> is_blank (hd ?n)" by (cases ?n) auto
  with ne have start: "takeWhile is_blank (?n @ ?t) = []" by (cases ?n) auto
  have tb: "?t \<noteq> [] \<and> is_blank (hd ?t)"
    using b assms(1) by (cases "rec_desc r") (auto simp: wf_newline_def is_blank_def)
  then have run: "takeWhile (\<lambda>c. \<not> is_blank c) (?n @ ?t) = ?n"
    using takeWhile_prefix[of ?n "\<lambda>c. \<not> is_blank c" ?t] nb by simp
  have "NUL \<notin> set ?n" using all_isgraph_facts[OF g] by simp
  then have "c_str ?n = ?n" by (rule c_str_no_NUL)
  with start run ne show ?thesis
    by (simp add: GetNameFromHeader_def header_line_def Let_def)
qed

lemma GetNextSequence_wf:
  assumes "wf_newline nl" and "list_all (wf_line nl) ls" and "IsOpen d" and "\<not> feof (Stream d)"
    and "drop (fpos (Stream d)) (fdata (Stream d)) = wrapped nl ls @ rest"
    and "rest = [] \<or> hd rest = GT"
  shows "GetNextSequence d None =
           ((True, concat ls),
            d\<lparr>Stream := (Stream d)\<lparr>fpos := fpos (Stream d) + length (wrapped nl ls),
                                     feof := (rest = [])\<rparr>\<rparr>)"
  using sequence_loop_all[OF assms(1,2,5,6), of "[]"] assms(3,4)
  by (simp add: GetNextSequence_def)

text \<open>Reading one record: its header line, then its lines.\<close>

lemma read_record:
  assumes "wf_newline nl" and "wf_record nl r" and "IsOpen d" and "\<not> feof (Stream d)"
    and "drop (fpos (Stream d)) (fdata (Stream d)) = render nl (r # rs)"
  defines "d1 \<equiv> d\<lparr>Stream := (Stream d)\<lparr>fpos := fpos (Stream d) + length (header_line nl r)\<rparr>\<rparr>"
  shows "GetNextHeader d = (Some (header_line nl r), d1)"
    and "GetNextSequence d1 None =
           ((True, dewrapped r),
            d\<lparr>Stream := (Stream d)\<lparr>fpos := fpos (Stream d) + length (render_record nl r),
                                     feof := (rs = [])\<rparr>\<rparr>)"
proof -
  from assms(5) have dr: "drop (fpos (Stream d)) (fdata (Stream d)) =
      header_line nl r @ (wrapped nl (rec_lines r) @ render nl rs)"
    by (simp add: render_Cons)
  from GetNextHeader_wf[OF assms(1-4) dr]
  show "GetNextHeader d = (Some (header_line nl r), d1)" by (simp add: d1_def)
  from assms(2) have wl: "list_all (wf_line nl) (rec_lines r)" by (simp add: wf_record_def)
  have d1: "drop (fpos (Stream d1)) (fdata (Stream d1)) = wrapped nl (rec_lines r) @ render nl rs"
    using drop_further[OF dr] by (simp add: d1_def)
  have o: "IsOpen d1" "\<not> feof (Stream d1)" using assms(3,4) by (simp_all add: d1_def)
  from GetNextSequence_wf[OF assms(1) wl o d1 render_rest]
  show "GetNextSequence d1 None =
           ((True, dewrapped r),
            d\<lparr>Stream := (Stream d)\<lparr>fpos := fpos (Stream d) + length (render_record nl r),
                                     feof := (rs = [])\<rparr>\<rparr>)"
    by (simp add: d1_def dewrapped_def length_render_record render_empty_iff add.assoc)
qed

lemma take_line_Nil: "take_line k [] = []"
  by (cases k) auto

lemma first_char_header: "first_char (header_line nl r) = GT"
  by (simp add: first_char_def header_line_def)

lemma to_int32_small: "n < 2 ^ 31 \<Longrightarrow> to_int32 n = int n"
  by (simp add: to_int32_def)

lemma feof_update_same: "feof s \<Longrightarrow> s\<lparr>feof := True\<rparr> = s"
  by (cases s) simp

lemma index_loop_wf:
  assumes "wf_newline nl" and "list_all (wf_record nl) rs" and "IsOpen d"
    and "drop (fpos (Stream d)) (fdata (Stream d)) = render nl rs"
    and "feof (Stream d) \<longrightarrow> rs = []"
  shows "index_loop ll bl d =
           (Ok (),
            d\<lparr>Stream := (Stream d)\<lparr>fpos := fpos (Stream d) + length (render nl rs), feof := True\<rparr>,
              Index := Index d @ index_from nl ll bl (fpos (Stream d)) rs\<rparr>)"
  using assms(2-5)
proof (induction rs arbitrary: d)
  case Nil
  show ?case
  proof (cases "feof (Stream d)")
    case True
    with Nil have "GetNextHeader d = (None, d)" by (simp add: GetNextHeader_def)
    then have "index_loop ll bl d = (Ok (), d)" by (subst index_loop.simps) simp
    with True show ?thesis by (simp add: render_Nil feof_update_same)
  next
    case False
    from Nil have "drop (fpos (Stream d)) (fdata (Stream d)) = []" by (simp add: render_Nil)
    then have "fgets 1024 (Stream d) = (None, (Stream d)\<lparr>feof := True\<rparr>)"
      by (simp add: fgets_def take_line_Nil)
    with False Nil have "GetNextHeader d = (None, d\<lparr>Stream := (Stream d)\<lparr>feof := True\<rparr>\<rparr>)"
      by (simp add: GetNextHeader_def)
    then have "index_loop ll bl d = (Ok (), d\<lparr>Stream := (Stream d)\<lparr>feof := True\<rparr>\<rparr>)"
      by (subst index_loop.simps) simp
    then show ?thesis by (simp add: render_Nil)
  qed
next
  case (Cons r rs)
  from Cons.prems have wr: "wf_record nl r" and wrs: "list_all (wf_record nl) rs"
    and op: "IsOpen d" and ne: "\<not> feof (Stream d)"
    and dr: "drop (fpos (Stream d)) (fdata (Stream d)) = render nl (r # rs)"
    by auto
  let ?d1 = "d\<lparr>Stream := (Stream d)\<lparr>fpos := fpos (Stream d) + length (header_line nl r)\<rparr>\<rparr>"
  let ?d2 = "d\<lparr>Stream := (Stream d)\<lparr>fpos := fpos (Stream d) + length (render_record nl r),
                                       feof := (rs = [])\<rparr>\<rparr>"
  let ?e = "\<lparr>Name = rec_name r, Length = int (length (dewrapped r)),
             Offset = int (fpos (Stream d) + length (header_line nl r)),
             LineLength = ll, ByteLength = bl\<rparr>"
  let ?d3 = "?d2\<lparr>Index := Index ?d2 @ [?e]\<rparr>"
  note rr = read_record[OF assms(1) wr op ne dr]
  from wr have "length (dewrapped r) < 2 ^ 31" by (simp add: wf_record_def)
  then have len: "to_int32 (length (dewrapped r)) = int (length (dewrapped r))"
    by (rule to_int32_small)
  have step: "index_loop ll bl d = index_loop ll bl ?d3"
    by (subst index_loop.simps)
       (simp add: rr GetNameFromHeader_wf[OF assms(1) wr] ftell64_def len Let_def)
  have d3: "drop (fpos (Stream ?d3)) (fdata (Stream ?d3)) = render nl rs"
    using drop_further[of "fpos (Stream d)" "fdata (Stream d)" "render_record nl r" "render nl rs"]
      dr by (simp add: render_Cons render_record_def)
  have "IsOpen ?d3" and "feof (Stream ?d3) \<longrightarrow> rs = []" using op by simp_all
  from Cons.IH[OF wrs this(1) d3 this(2)] step
  show ?case by (simp add: render_Cons length_render_record add.assoc)
qed

text \<open>The index \<^verbatim>\<open>CreateIndex\<close> builds for a well-formed file is the index of the
  file.\<close>

lemma build_index_wf:
  assumes "wf_fasta nl rs" and "IsOpen d" and "fdata (Stream d) = render nl rs"
  shows "build_index d =
           (Ok (),
            d\<lparr>Stream := \<lparr>fdata = render nl rs, fpos = length (render nl rs), feof = True\<rparr>,
              Index := expected_index nl rs\<rparr>)"
proof -
  from assms(1) obtain r rs' where rs: "rs = r # rs'" and nl: "wf_newline nl"
    and wr: "wf_record nl r" and wrs: "list_all (wf_record nl) rs"
    by (cases rs) (auto simp: wf_fasta_def)
  let ?s0 = "\<lparr>fdata = render nl rs, fpos = 0, feof = False\<rparr>"
  have s0: "(Stream d)\<lparr>fpos := 0, feof := False\<rparr> = ?s0"
    using assms(3) by (cases "Stream d") simp
  let ?h = "GT # rec_name r @ rec_desc r"
  have dr: "drop (fpos ?s0) (fdata ?s0) = ?h @ nl @ (wrapped nl (rec_lines r) @ render nl rs')"
    by (simp add: rs render_Cons header_line_def)
  from fgets_line[OF nl header_facts[OF wr] dr]
  have fg: "fgets 1024 ?s0 = (Some (header_line nl r), ?s0\<lparr>fpos := length (header_line nl r)\<rparr>)"
    by (simp add: header_line_def)
  obtain ll bl where fl:
    "first_line_loop (drop (length (header_line nl r)) (render nl rs)) 0 0 = (ll, bl)"
    by (cases "first_line_loop (drop (length (header_line nl r)) (render nl rs)) 0 0")
  then have ex: "expected_index nl rs = index_from nl ll (bl + 1) 0 rs"
    by (simp add: expected_index_def measured_geometry_def rs)
  let ?d3 = "d\<lparr>Index := [], Stream := ?s0\<rparr>"
  have "index_loop ll (bl + 1) ?d3 =
          (Ok (),
           ?d3\<lparr>Stream := (Stream ?d3)\<lparr>fpos := fpos (Stream ?d3) + length (render nl rs),
                                        feof := True\<rparr>,
               Index := Index ?d3 @ index_from nl ll (bl + 1) (fpos (Stream ?d3)) rs\<rparr>)"
    by (rule index_loop_wf[OF nl wrs]) (simp_all add: assms(2) rs)
  then have il: "index_loop ll (bl + 1) ?d3 =
          (Ok (),
           d\<lparr>Stream := \<lparr>fdata = render nl rs, fpos = length (render nl rs), feof = True\<rparr>,
             Index := expected_index nl rs\<rparr>)"
    by (simp add: ex)
  show ?thesis
    by (simp add: build_index_def Rewind_def fseek64_def assms(2) s0 fg first_char_header
        fl il Let_def)
qed





section \<open>The measured line geometry\<close>

lemma first_line_loop_mono:
  "first_line_loop cs ll bl = (ll', bl') \<Longrightarrow> ll \<le> ll' \<and> ll' - ll \<le> bl' - bl"
proof (induction cs arbitrary: ll bl)
  case Nil
  then show ?case by simp
next
  case (Cons c cs)
  show ?case
  proof (cases "is_nonneg_char c \<and> c \<noteq> LF")
    case False
    with Cons.prems show ?thesis by auto
  next
    case True
    with Cons.prems have "first_line_loop cs (if isgraph c then ll + 1 else ll) (bl + 1) = (ll', bl')"
      by simp
    from Cons.IH[OF this] show ?thesis by (auto split: if_splits)
  qed
qed

lemma first_line_loop_graph:
  "list_all isgraph l \<Longrightarrow>
   first_line_loop (l @ rest) ll bl = first_line_loop rest (ll + int (length l)) (bl + int (length l))"
proof (induction l arbitrary: ll bl)
  case Nil
  then show ?case by simp
next
  case (Cons c l)
  then have "isgraph c" and "list_all isgraph l" by auto
  with Cons.IH[of "ll + 1" "bl + 1"] isgraph_nonneg[of c] isgraph_facts[of c]
  show ?case by (simp add: add.assoc)
qed

lemma first_line_loop_nl:
  "wf_newline nl \<Longrightarrow> first_line_loop (nl @ rest) ll bl = (ll, bl + int (length nl) - 1)"
  by (auto simp: wf_newline_def is_nonneg_char_def isgraph_def)

lemma measured_geometry_lines:
  assumes "wf_fasta nl rs" and "rec_lines (hd rs) = l # ls"
  shows "measured_geometry nl rs = (int (length l), int (length l + length nl))"
proof -
  from assms(1) obtain r rs' where rs: "rs = r # rs'" and nl: "wf_newline nl"
    and wr: "wf_record nl r"
    by (cases rs) (auto simp: wf_fasta_def)
  from wr assms(2) rs have g: "list_all isgraph l" by (simp add: wf_record_def wf_line_def)
  have "drop (length (header_line nl (hd rs))) (render nl rs) =
          l @ (nl @ (wrapped nl ls @ render nl rs'))"
    using assms(2) by (simp add: rs render_Cons wrapped_Cons)
  then show ?thesis
    by (simp add: measured_geometry_def first_line_loop_graph[OF g] first_line_loop_nl[OF nl])
qed

lemma measured_geometry_le:
  "fst (measured_geometry nl rs) \<le> snd (measured_geometry nl rs)"
proof -
  obtain ll bl where fl:
    "first_line_loop (drop (length (header_line nl (hd rs))) (render nl rs)) 0 0 = (ll, bl)"
    by (cases "first_line_loop (drop (length (header_line nl (hd rs))) (render nl rs)) 0 0")
  from first_line_loop_mono[OF this] show ?thesis
    by (simp add: measured_geometry_def fl)
qed





lemma two_records_wf: "wf_fasta [LF] two_records"
  by (simp add: wf_fasta_def wf_newline_def wf_record_def wf_line_def two_records_def
      header_line_def dewrapped_def isgraph_def is_blank_def render_def render_record_def
      wrapped_def)


text \<open>
  C1 (the code at the failing input).  \<^verbatim>\<open>CreateIndex\<close> provides for an empty index
  file name: it skips \<^verbatim>\<open>fopen\<close> when the name is empty.  \<^verbatim>\<open>WriteIndexData\<close> then
  returns false because no index stream is open, and \<^verbatim>\<open>CreateIndex\<close> returns false
  before it sets \<^verbatim>\<open>HasIndex\<close>.  On the file \<open>>a\<close>, \<open>AC\<close>, opened without an index, the
  call with the empty name builds the one entry of the table, writes nothing,
  returns false and leaves the reader without index; with the name \<open>a.fai\<close> the
  same call returns true and the reader has the index.
\<close>

theorem CreateIndex_empty_name_fails:
  "IsOpen small_reader \<and>
   fst (CreateIndex small_reader empty_disk []) = Failed CouldNotWriteIndex \<and>
   \<not> HasIndex (fst (snd (CreateIndex small_reader empty_disk []))) \<and>
   Index (fst (snd (CreateIndex small_reader empty_disk []))) =
     [\<lparr>Name = ''a'', Length = 2, Offset = 3, LineLength = 2, ByteLength = 3\<rparr>] \<and>
   snd (snd (CreateIndex small_reader empty_disk [])) = empty_disk \<and>
   fst (CreateIndex small_reader empty_disk ''a.fai'') = Ok () \<and>
   HasIndex (fst (snd (CreateIndex small_reader empty_disk ''a.fai'')))"
  by code_simp

section \<open>The entries of a built index\<close>


















section \<open>Reading through the index\<close>











section \<open>The two paths of GetBase\<close>












section \<open>The sequential fallback past the end of the sequence\<close>

text \<open>
  C8, amended.  On a reader without index and for a record id that is not
  negative, let \<open>sequence\<close> be what the sequential scan retrieves for the record.
  \<^verbatim>\<open>GetBase\<close> returns false when the position is greater than the length of
  \<open>sequence\<close>, and \<^verbatim>\<open>GetSequence\<close> returns false when \<open>stop\<close> is greater than that
  length.  A \<open>stop\<close> equal to the length is accepted: \<^verbatim>\<open>GetSequence\<close> then returns
  true with the sequence from \<open>start\<close> to its end.
\<close>

theorem sequential_past_the_end:
  assumes "IsOpen d" and "\<not> (HasIndex d \<and> Index d \<noteq> [])" and "0 \<le> refId"
    and "read_entry (snd (Rewind d)) refId = Ok (sequence, d1)"
  shows "(int (length sequence) < position \<longrightarrow>
            GetBase d refId position = (Failed CouldNotGetSequence, d1)) \<and>
         (int (length sequence) < stop \<longrightarrow>
            GetSequence d refId start stop = (Failed CouldNotGetSequence, d1)) \<and>
         (stop = int (length sequence) \<and> 0 \<le> start \<and> start \<le> stop \<and> stop < 2 ^ 31 \<longrightarrow>
            GetSequence d refId start stop = (Ok (drop (nat start) sequence), d1))"
proof -
  from assms(1) obtain d0 where rw: "Rewind d = (True, d0)"
    by (simp add: Rewind_def fseek64_def)
  with assms(4) have re: "read_entry d0 refId = Ok (sequence, d1)" by simp
  from assms(2) have ni: "(HasIndex d \<and> Index d \<noteq> []) = False" by simp
  have a: "int (length sequence) < position \<Longrightarrow>
           GetBase d refId position = (Failed CouldNotGetSequence, d1)"
  proof -
    assume "int (length sequence) < position"
    then have "\<not> nat position \<le> length sequence" by linarith
    with assms(1) show ?thesis by (simp add: GetBase_def ni rw re)
  qed
  have b: "int (length sequence) < stop \<Longrightarrow>
           GetSequence d refId start stop = (Failed CouldNotGetSequence, d1)"
  proof -
    assume "int (length sequence) < stop"
    then have "\<not> nat stop \<le> length sequence" by linarith
    with assms(1) show ?thesis by (simp add: GetSequence_def ni rw re)
  qed
  have c: "GetSequence d refId start stop = (Ok (drop (nat start) sequence), d1)"
    if h: "stop = int (length sequence)" "0 \<le> start" "start \<le> stop" "stop < 2 ^ 31"
  proof -
    from h have s64: "start < 2 ^ 64" "stop - start + 1 < 2 ^ 64" by simp_all
    with h have t: "to_size_t start = nat start" "to_size_t (stop - start + 1) = nat (stop - start + 1)"
      by (simp_all add: to_size_t_def)
    from h have "substr sequence start (stop - start + 1) = Ok (drop (nat start) sequence)"
      unfolding substr_def t by auto
    with assms(1) h show ?thesis
      by (simp add: GetSequence_def Let_def ni rw re)
  qed
  from a b c show ?thesis by blast
qed

lemma small_reader_scan:
  "read_entry (snd (Rewind small_reader)) 0 =
     Ok (''AC'', small_reader\<lparr>Stream := \<lparr>fdata = small_fasta, fpos = 6, feof = True\<rparr>\<rparr>)"
  by code_simp

theorem sequential_past_the_end_witness:
  "GetBase small_reader 0 3 =
     (Failed CouldNotGetSequence,
      small_reader\<lparr>Stream := \<lparr>fdata = small_fasta, fpos = 6, feof = True\<rparr>\<rparr>) \<and>
   GetSequence small_reader 0 0 3 =
     (Failed CouldNotGetSequence,
      small_reader\<lparr>Stream := \<lparr>fdata = small_fasta, fpos = 6, feof = True\<rparr>\<rparr>) \<and>
   GetSequence small_reader 0 1 2 =
     (Ok ''C'', small_reader\<lparr>Stream := \<lparr>fdata = small_fasta, fpos = 6, feof = True\<rparr>\<rparr>)"
proof -
  have o: "IsOpen small_reader" "\<not> (HasIndex small_reader \<and> Index small_reader \<noteq> [])"
    by (simp_all add: small_reader_def FastaPrivate_new_def)
  from sequential_past_the_end[OF o _ small_reader_scan, of 3 3 0]
    sequential_past_the_end[OF o _ small_reader_scan, of 3 2 1]
  show ?thesis by simp
qed

text \<open>
  C8 as stated fails where the position, or \<open>stop\<close>, equals the length of the
  retrieved sequence.  On the file \<open>>a\<close>, \<open>AC\<close> read without index, the sequence
  retrieved for record 0 has 2 characters: \<^verbatim>\<open>GetSequence\<close> with \<open>stop = 2\<close> returns
  true with a value, and \<^verbatim>\<open>GetBase\<close> at position 2 passes the check
  \<^verbatim>\<open>sequence.length() >= position\<close> and leaves through the \<^verbatim>\<open>std::out_of_range\<close> of
  \<^verbatim>\<open>sequence.at(position)\<close>.
\<close>

theorem sequential_at_the_end:
  "IsOpen small_reader \<and> \<not> HasIndex small_reader \<and>
   read_entry (snd (Rewind small_reader)) 0 =
     Ok (''AC'', small_reader\<lparr>Stream := \<lparr>fdata = small_fasta, fpos = 6, feof = True\<rparr>\<rparr>) \<and>
   fst (GetSequence small_reader 0 0 2) = Ok ''AC'' \<and>
   fst (GetBase small_reader 0 2) = Aborted OutOfRangeException"
proof -
  have "fst (GetSequence small_reader 0 0 2) = Ok ''AC'' \<and>
        fst (GetBase small_reader 0 2) = Aborted OutOfRangeException"
    by code_simp
  with small_reader_scan show ?thesis by (simp add: small_reader_def FastaPrivate_new_def)
qed


section \<open>Writing the index and loading it back\<close>

text \<open>An index entry that \<^verbatim>\<open>WriteIndexData\<close> and \<^verbatim>\<open>LoadIndexData\<close> carry over: its
  name has no white space and no \<^verbatim>\<open>NUL\<close> and does not start with the byte \<open>0xFF\<close>,
  its numbers are in the range of their types, and its line in the index file
  fits the 1023 characters one \<^verbatim>\<open>fgets\<close> reads.\<close>

definition serializable :: "FastaIndexData \<Rightarrow> bool" where
  "serializable e =
     (Name e \<noteq> [] \<and> list_all (\<lambda>c. \<not> isspace c \<and> c \<noteq> NUL) (Name e) \<and> hd (Name e) \<noteq> EOFC \<and>
      - (2 ^ 31) \<le> Length e \<and> Length e \<le> 2 ^ 31 - 1 \<and>
      - (2 ^ 63) \<le> Offset e \<and> Offset e \<le> 2 ^ 63 - 1 \<and>
      - (2 ^ 31) \<le> LineLength e \<and> LineLength e \<le> 2 ^ 31 - 1 \<and>
      - (2 ^ 31) \<le> ByteLength e \<and> ByteLength e \<le> 2 ^ 31 - 1 \<and>
      length (index_line e) \<le> 1023)"

definition two_disk :: filesystem where
  "two_disk = \<lparr>files = [(''two.fa'', render [LF] two_records)], write_protected = []\<rparr>"

section \<open>Numbers in the index file\<close>

declare show_nat.simps [simp del]

lemma digit_char_facts:
  assumes "k < 10"
  shows "isdigit (digit_char k)" and "digit_val (digit_char k) = int k"
  using assms by (simp_all add: isdigit_def digit_val_def digit_char_def)

lemma digits_val_snoc: "digits_val (ds @ [c]) = 10 * digits_val ds + digit_val c"
  by (simp add: digits_val_def)

lemma show_nat_facts:
  "show_nat n \<noteq> [] \<and> list_all isdigit (show_nat n) \<and> digits_val (show_nat n) = int n"
proof (induction n rule: show_nat.induct)
  case (1 n)
  show ?case
  proof (cases "n < 10")
    case True
    then have "show_nat n = [digit_char n]" by (subst show_nat.simps) simp
    with digit_char_facts[OF True] show ?thesis by (simp add: digits_val_def)
  next
    case False
    then have s: "show_nat n = show_nat (n div 10) @ [digit_char (n mod 10)]"
      by (subst show_nat.simps) simp
    have "n mod 10 < 10" by simp
    note d = digit_char_facts[OF this]
    have "int n = int (10 * (n div 10) + n mod 10)" by simp
    then have n: "10 * int (n div 10) + int (n mod 10) = int n"
      by (simp only: of_nat_add of_nat_mult of_nat_numeral)
    from "1.IH"[OF False] d n show ?thesis
      unfolding s by (simp add: digits_val_snoc)
  qed
qed

lemma isdigit_facts:
  "isdigit c \<Longrightarrow> \<not> isspace c \<and> c \<noteq> NUL \<and> c \<noteq> LF \<and> c \<noteq> CHR ''-'' \<and> c \<noteq> CHR ''+''"
  by (auto simp: isdigit_def isspace_def)

lemma show_int_chars:
  "list_all (\<lambda>c. \<not> isspace c \<and> c \<noteq> NUL \<and> c \<noteq> LF) (show_int v)"
proof -
  have "list_all (\<lambda>c. \<not> isspace c \<and> c \<noteq> NUL \<and> c \<noteq> LF) (show_nat n)" for n
    using show_nat_facts[of n] isdigit_facts by (auto simp: list_all_iff)
  then show ?thesis by (simp add: show_int_def isspace_def)
qed

lemma show_int_nonempty: "show_int v \<noteq> []"
  using show_nat_facts by (simp add: show_int_def)

section \<open>The extractions of one index line\<close>

lemma sentry_at_token:
  assumes "good ss" and "drop (sget ss) (sbuf ss) = c # rest" and "\<not> isspace c"
  shows "sentry ss = (True, ss)"
  using assms by (simp add: sentry_def Let_def)

lemma sentry_after_tab:
  assumes "good ss" and "drop (sget ss) (sbuf ss) = TAB # c # rest" and "\<not> isspace c"
  shows "sentry ss = (True, ss\<lparr>sget := sget ss + 1\<rparr>)"
  using assms by (simp add: sentry_def Let_def isspace_def)

lemma extract_string_token:
  assumes "good ss" and "drop (sget ss) (sbuf ss) = tok @ c # rest" and "tok \<noteq> []"
    and "list_all (\<lambda>x. \<not> isspace x) tok" and "isspace c"
  shows "extract_string ss = (Some tok, ss\<lparr>sget := sget ss + length tok, eofbit := False\<rparr>)"
proof -
  from assms(3,4) obtain x xs where t: "tok = x # xs" and x: "\<not> isspace x" by (cases tok) auto
  from assms(2) t have "drop (sget ss) (sbuf ss) = x # (xs @ c # rest)" by simp
  note s = sentry_at_token[OF assms(1) this x]
  have tw: "takeWhile (\<lambda>c. \<not> isspace c) (tok @ c # rest) = tok"
    using assms(4,5) takeWhile_prefix[of tok "\<lambda>c. \<not> isspace c" "c # rest"]
    by (simp add: list_all_iff)
  show ?thesis
    unfolding extract_string_def s prod.case bool.case Let_def assms(2) tw by simp
qed

lemma extract_int_digits:
  assumes "good ss" and "drop (sget ss) (sbuf ss) = TAB # sign @ show_nat n @ c # rest"
    and "\<not> isdigit c" and "sign = [] \<or> sign = ''-''"
    and "lo \<le> (if sign = [] then int n else - int n)"
    and "(if sign = [] then int n else - int n) \<le> hi"
  shows "extract_int lo hi ss =
           (Some (if sign = [] then int n else - int n),
            ss\<lparr>sget := sget ss + (1 + length (sign @ show_nat n)), eofbit := False\<rparr>)"
proof -
  note f = show_nat_facts[of n]
  from f obtain y ys where sy: "show_nat n = y # ys" and dy: "isdigit y"
    by (cases "show_nat n") auto
  have nx: "\<not> isspace (hd (sign @ show_nat n))"
    using assms(4) isdigit_facts[OF dy] by (auto simp: sy isspace_def)
  obtain x xs where sx: "sign @ show_nat n = x # xs" using sy by (cases sign) auto
  with nx have nsx: "\<not> isspace x" by simp
  from assms(2) sx have "drop (sget ss) (sbuf ss) = TAB # x # (xs @ c # rest)" by simp
  note s = sentry_after_tab[OF assms(1) this nsx]
  let ?ss1 = "ss\<lparr>sget := sget ss + 1\<rparr>"
  have d1: "drop (sget ?ss1) (sbuf ?ss1) = sign @ show_nat n @ c # rest"
    using drop_further[of "sget ss" "sbuf ss" "[TAB]" "sign @ show_nat n @ c # rest"] assms(2)
    by simp
  have tw: "takeWhile isdigit (show_nat n @ c # rest) = show_nat n"
    using f assms(3) takeWhile_prefix[of "show_nat n" isdigit "c # rest"]
    by (simp add: list_all_iff)
  then have tw': "takeWhile isdigit (ys @ c # rest) = ys" using dy by (simp add: sy)
  have dv: "digits_val (y # ys) = int n" using f by (simp add: sy)
  from isdigit_facts[OF dy] have yy: "y \<noteq> CHR ''-''" "y \<noteq> CHR ''+''" by auto
  from assms(4) show ?thesis
  proof
    assume e: "sign = []"
    have d1': "drop (sget ?ss1) (sbuf ?ss1) = y # ys @ c # rest" using d1 e sy by simp
    from assms(5,6) e have r: "\<not> int n < lo" "\<not> hi < int n" by auto
    show ?thesis
      unfolding extract_int_def s prod.case bool.case Let_def d1'
      by (simp add: yy dy tw' dv r e sy)
  next
    assume e: "sign = ''-''"
    have d1': "drop (sget ?ss1) (sbuf ?ss1) = CHR ''-'' # y # ys @ c # rest"
      using d1 e sy by simp
    from assms(5,6) e have r: "\<not> - int n < lo" "\<not> hi < - int n" by auto
    show ?thesis
      unfolding extract_int_def s prod.case bool.case Let_def d1'
      by (simp add: dy tw' dv r e sy)
  qed
qed

lemma extract_int_field:
  assumes "good ss" and "drop (sget ss) (sbuf ss) = TAB # show_int v @ c # rest"
    and "\<not> isdigit c" and "lo \<le> v" and "v \<le> hi"
  shows "extract_int lo hi ss =
           (Some v, ss\<lparr>sget := sget ss + (1 + length (show_int v)), eofbit := False\<rparr>)"
proof (cases "v < 0")
  case True
  then have sv: "show_int v = ''-'' @ show_nat (nat (- v))" by (simp add: show_int_def)
  from True have v: "- int (nat (- v)) = v" by simp
  from extract_int_digits[OF assms(1), of "''-''" "nat (- v)" c rest lo hi] assms(2-5)
  show ?thesis unfolding sv v by simp
next
  case False
  then have sv: "show_int v = [] @ show_nat (nat v)" by (simp add: show_int_def)
  from False have v: "int (nat v) = v" by simp
  from extract_int_digits[OF assms(1), of "[]" "nat v" c rest lo hi] assms(2-5)
  show ?thesis unfolding sv v by simp
qed

lemma parse_index_line_serialized:
  assumes "good ss" and "drop (sget ss) (sbuf ss) = index_line e" and "serializable e"
  shows "\<exists>ss'. parse_index_line ss = (Ok e, ss') \<and> good ss'"
proof -
  let ?f4 = "TAB # show_int (ByteLength e) @ LF # []"
  let ?f3 = "TAB # show_int (LineLength e) @ ?f4"
  let ?f2 = "TAB # show_int (Offset e) @ ?f3"
  let ?f1 = "TAB # show_int (Length e) @ ?f2"
  have line: "index_line e = Name e @ ?f1" by (simp add: index_line_def)
  from assms(3) have ne: "Name e \<noteq> []" and ns: "list_all (\<lambda>x. \<not> isspace x) (Name e)"
    and r: "- (2 ^ 31) \<le> Length e" "Length e \<le> 2 ^ 31 - 1"
      "- (2 ^ 63) \<le> Offset e" "Offset e \<le> 2 ^ 63 - 1"
      "- (2 ^ 31) \<le> LineLength e" "LineLength e \<le> 2 ^ 31 - 1"
      "- (2 ^ 31) \<le> ByteLength e" "ByteLength e \<le> 2 ^ 31 - 1"
    by (auto simp: serializable_def list_all_iff)
  have tab: "isspace TAB" "\<not> isdigit TAB" "\<not> isdigit LF" by (simp_all add: isspace_def isdigit_def)
  let ?s1 = "ss\<lparr>sget := sget ss + length (Name e), eofbit := False\<rparr>"
  have e0: "extract_string ss = (Some (Name e), ?s1)"
    using extract_string_token[OF assms(1) _ ne ns tab(1), of "show_int (Length e) @ ?f2"]
      assms(2) line by simp
  from assms(1) have g1: "good ?s1" by (simp add: good_def)
  have d1: "drop (sget ?s1) (sbuf ?s1) = TAB # show_int (Length e) @ TAB # show_int (Offset e) @ ?f3"
    using drop_further[of "sget ss" "sbuf ss" "Name e" ?f1] assms(2) line by simp
  let ?s2 = "?s1\<lparr>sget := sget ?s1 + (1 + length (show_int (Length e))), eofbit := False\<rparr>"
  note e1 = extract_int_field[OF g1 d1 tab(2) r(1,2)]
  from g1 have g2: "good ?s2" by (simp add: good_def)
  have d2: "drop (sget ?s2) (sbuf ?s2) = TAB # show_int (Offset e) @ TAB # show_int (LineLength e) @ ?f4"
    using drop_further[of "sget ?s1" "sbuf ?s1" "TAB # show_int (Length e)" ?f2] d1 by simp
  let ?s3 = "?s2\<lparr>sget := sget ?s2 + (1 + length (show_int (Offset e))), eofbit := False\<rparr>"
  note e2 = extract_int_field[OF g2 d2 tab(2) r(3,4)]
  from g2 have g3: "good ?s3" by (simp add: good_def)
  have d3: "drop (sget ?s3) (sbuf ?s3) =
              TAB # show_int (LineLength e) @ TAB # show_int (ByteLength e) @ LF # []"
    using drop_further[of "sget ?s2" "sbuf ?s2" "TAB # show_int (Offset e)" ?f3] d2 by simp
  let ?s4 = "?s3\<lparr>sget := sget ?s3 + (1 + length (show_int (LineLength e))), eofbit := False\<rparr>"
  note e3 = extract_int_field[OF g3 d3 tab(2) r(5,6)]
  from g3 have g4: "good ?s4" by (simp add: good_def)
  have d4: "drop (sget ?s4) (sbuf ?s4) = TAB # show_int (ByteLength e) @ LF # []"
    using drop_further[of "sget ?s3" "sbuf ?s3" "TAB # show_int (LineLength e)" ?f4] d3 by simp
  let ?s5 = "?s4\<lparr>sget := sget ?s4 + (1 + length (show_int (ByteLength e))), eofbit := False\<rparr>"
  note e4 = extract_int_field[OF g4 d4 tab(3) r(7,8)]
  from g4 have g5: "good ?s5" by (simp add: good_def)
  have "parse_index_line ss = (Ok e, ?s5)"
    unfolding parse_index_line_def e0 prod.case e1 e2 e3 e4 by simp
  with g5 show ?thesis by blast
qed

section \<open>Loading what was written\<close>

lemma index_line_body:
  assumes "serializable e"
  shows "\<exists>l. index_line e = l @ [LF] \<and> LF \<notin> set l \<and> NUL \<notin> set l \<and> length l + 1 \<le> 1023 \<and>
           l \<noteq> [] \<and> hd l \<noteq> LF \<and> hd l \<noteq> EOFC"
proof -
  let ?l = "Name e @ [TAB] @ show_int (Length e) @ [TAB] @ show_int (Offset e) @ [TAB] @
            show_int (LineLength e) @ [TAB] @ show_int (ByteLength e)"
  have l: "index_line e = ?l @ [LF]" by (simp add: index_line_def)
  from assms have ne: "Name e \<noteq> []" and nm: "list_all (\<lambda>c. \<not> isspace c \<and> c \<noteq> NUL) (Name e)"
    and h: "hd (Name e) \<noteq> EOFC" and len: "length (index_line e) \<le> 1023"
    by (auto simp: serializable_def)
  from nm have "LF \<notin> set (Name e) \<and> NUL \<notin> set (Name e)"
    by (auto simp: list_all_iff isspace_def)
  moreover have "LF \<notin> set (show_int v) \<and> NUL \<notin> set (show_int v)" for v
    using show_int_chars[of v] by (auto simp: list_all_iff)
  ultimately have "LF \<notin> set ?l \<and> NUL \<notin> set ?l" by simp
  moreover from ne nm have "hd ?l \<noteq> LF" by (cases "Name e") (auto simp: isspace_def)
  moreover from ne h have "hd ?l \<noteq> EOFC" by simp
  moreover from len l have "length ?l + 1 \<le> 1023" by simp
  ultimately show ?thesis using l ne by blast
qed

lemma load_loop_serialized:
  assumes "list_all serializable es" and "good ib" and "\<not> feof s"
    and "drop (fpos s) (fdata s) = concat (map index_line es)"
  shows "\<exists>s'. load_loop ib s index = (Ok True, s', index @ es)"
  using assms
proof (induction es arbitrary: ib s index)
  case Nil
  then have "\<not> fpos s < length (fdata s)" by simp
  then have fg: "fgetc s = (None, s\<lparr>feof := True\<rparr>)" by (simp add: fgetc_def)
  have "load_loop ib s index = (Ok True, s\<lparr>feof := True\<rparr>, index)"
    by (subst load_loop.simps) (simp add: fg to_char_def)
  then show ?case by simp
next
  case (Cons e es)
  from Cons.prems have se: "serializable e" and ses: "list_all serializable es" by auto
  from index_line_body[OF se] obtain l where l: "index_line e = l @ [LF]"
    and nolf: "LF \<notin> set l" and nonul: "NUL \<notin> set l" and len: "length l + length [LF] \<le> 1023"
    and lne: "l \<noteq> []" and h: "hd l \<noteq> LF" "hd l \<noteq> EOFC"
    by auto
  from lne obtain c cs where lc: "l = c # cs" by (cases l) auto
  let ?rest = "concat (map index_line es)"
  from Cons.prems(4) l have dr: "drop (fpos s) (fdata s) = l @ [LF] @ ?rest" by simp
  with lc have at: "fpos s < length (fdata s)" "fdata s ! fpos s = c"
    using drop_at[of "fpos s" "fdata s" c "cs @ [LF] @ ?rest"] by auto
  then have fg: "fgetc s = (Some c, s\<lparr>fpos := fpos s + 1\<rparr>)" by (simp add: fgetc_def)
  from h lc have c: "c \<noteq> LF" "c \<noteq> EOFC" by auto
  let ?s2 = "s\<lparr>feof := False\<rparr>"
  have d2: "drop (fpos ?s2) (fdata ?s2) = l @ [LF] @ ?rest" using dr by simp
  have nl: "wf_newline [LF]" by (simp add: wf_newline_def)
  from fgets_line[OF nl nolf nonul len d2]
  have fl: "fgets 1024 ?s2 = (Some (index_line e), ?s2\<lparr>fpos := fpos s + length (index_line e)\<rparr>)"
    by (simp add: l)
  let ?ib1 = "insert_c_str (str_clear ib) (index_line e)"
  from Cons.prems(2) have ib1: "?ib1 = ib\<lparr>sbuf := index_line e, sget := 0\<rparr>"
    by (simp add: insert_c_str_def str_clear_def good_def)
  then have "good ?ib1" and "drop (sget ?ib1) (sbuf ?ib1) = index_line e"
    using Cons.prems(2) by (simp_all add: good_def)
  from parse_index_line_serialized[OF this se] obtain ib2 where
    p: "parse_index_line ?ib1 = (Ok e, ib2)" and g2: "good ib2" by blast
  let ?s3 = "?s2\<lparr>fpos := fpos s + length (index_line e)\<rparr>"
  have step: "load_loop ib s index = load_loop ib2 ?s3 (index @ [e])"
    using Cons.prems(3)
    by (subst load_loop.simps) (simp add: fg c to_char_def ungetc_def fl p Let_def)
  have d3: "drop (fpos ?s3) (fdata ?s3) = ?rest"
    using drop_further[of "fpos s" "fdata s" "index_line e" ?rest] Cons.prems(4) by simp
  have "\<not> feof ?s3" by simp
  from Cons.IH[OF ses g2 this d3, of "index @ [e]"] step show ?case by simp
qed

lemma serializable_c_str: "serializable e \<Longrightarrow> c_str (index_line e) = index_line e"
  using index_line_body[of e] by (auto intro!: c_str_no_NUL)

lemma write_loop_Writing:
  "write_loop es (Writing p) b fs =
     (b, fs\<lparr>files := map (\<lambda>(q, bytes).
                          if q = p then (q, bytes @ concat (map (\<lambda>e. c_str (index_line e)) es))
                          else (q, bytes)) (files fs)\<rparr>)"
proof (induction es arbitrary: b fs)
  case Nil
  have "map (\<lambda>(q, bytes).
               if q = p then (q, bytes @ concat (map (\<lambda>e. c_str (index_line e)) []))
               else (q, bytes)) (files fs) = files fs"
    by (rule map_idI) auto
  then show ?case by simp
next
  case (Cons e es)
  let ?X = "c_str (index_line e)" and ?Y = "concat (map (\<lambda>e. c_str (index_line e)) es)"
  have comp: "map (\<lambda>(q, bytes). if q = p then (q, bytes @ ?Y) else (q, bytes))
                (map (\<lambda>(q, bytes). if q = p then (q, bytes @ ?X) else (q, bytes)) xs) =
              map (\<lambda>(q, bytes).
                     if q = p then (q, bytes @ concat (map (\<lambda>e. c_str (index_line e)) (e # es)))
                     else (q, bytes)) xs" for xs :: "(string \<times> string) list"
    by (induction xs) auto
  have "write_loop (e # es) (Writing p) b fs =
          write_loop es (Writing p) b
            (fs\<lparr>files := map (\<lambda>(q, bytes). if q = p then (q, bytes @ ?X) else (q, bytes)) (files fs)\<rparr>)"
    by (simp add: fputs_def)
  also have "\<dots> = (b, fs\<lparr>files := map (\<lambda>(q, bytes). if q = p then (q, bytes @ ?Y) else (q, bytes))
                  (map (\<lambda>(q, bytes). if q = p then (q, bytes @ ?X) else (q, bytes)) (files fs))\<rparr>)"
    unfolding Cons.IH by simp
  finally show ?case unfolding comp .
qed

lemma CreateIndex_Ok_file:
  assumes "CreateIndex d fs indexFilename = (Ok (), d', fs')" and "indexFilename \<noteq> []"
  shows "map_of (files fs') indexFilename =
           Some (concat (map (\<lambda>e. c_str (index_line e)) (Index d')))"
proof -
  obtain r d4 where b: "build_index d = (r, d4)" by (cases "build_index d")
  with assms have r: "r = Ok ()"
    by (cases r) (simp_all add: CreateIndex_def)
  from assms b r obtain fs1 where o: "fopen_wb fs indexFilename = Some fs1"
    by (cases "fopen_wb fs indexFilename") (auto simp: CreateIndex_def)
  then have f1: "files fs1 = (indexFilename, []) # filter (\<lambda>(p, bytes). p \<noteq> indexFilename) (files fs)"
    by (auto simp: fopen_wb_def split: if_splits)
  let ?d5 = "d4\<lparr>IndexStream := Writing indexFilename, IsIndexOpen := True\<rparr>"
  have w: "WriteIndexData ?d5 fs1 = write_loop (Index d4) (Writing indexFilename) True fs1"
    by (simp add: WriteIndexData_def)
  from assms b r o w have "d' = ?d5\<lparr>HasIndex := True, IsIndexOpen := False\<rparr>" and
    "fs' = snd (write_loop (Index d4) (Writing indexFilename) True fs1)"
    by (auto simp: CreateIndex_def write_loop_Writing)
  then show ?thesis by (simp add: write_loop_Writing f1)
qed

lemma Open_serialized:
  assumes "map_of (files fs) filename = Some bytes" and "indexFilename \<noteq> []"
    and "map_of (files fs) indexFilename = Some (concat (map index_line es))"
    and "list_all serializable es"
  shows "\<exists>d'. Open d fs filename indexFilename = (Ok (), d') \<and> Index d' = es \<and> HasIndex d' \<and>
           IsOpen d' \<and> fdata (Stream d') = bytes"
proof -
  let ?ixs = "\<lparr>fdata = concat (map index_line es), fpos = 0, feof = False\<rparr>"
  let ?ib = "\<lparr>sbuf = [], sget = 0, eofbit = False, failbit = False\<rparr>"
  have "good ?ib" and "\<not> feof ?ixs" and "drop (fpos ?ixs) (fdata ?ixs) = concat (map index_line es)"
    by (simp_all add: good_def)
  from load_loop_serialized[OF assms(4) this, of "[]"] obtain s' where
    ll: "load_loop ?ib ?ixs [] = (Ok True, s', es)" by auto
  show ?thesis
    using assms(1-3) by (simp add: Open_def fopen_rb_def LoadIndexData_def ll)
qed

text \<open>
  C4, amended.  When \<^verbatim>\<open>CreateIndex\<close> has built an index and written it to a named
  index file, and every entry has a name without white space that does not start
  with the byte \<open>0xFF\<close> and a line of at most 1023 bytes in the index file, then
  \<^verbatim>\<open>Open\<close> with that index file loads an index table equal to the one built: the
  same entries, field by field, in the same order.
\<close>

theorem index_round_trip:
  assumes "CreateIndex d fs indexFilename = (Ok (), d', fs')" and "indexFilename \<noteq> []"
    and "list_all serializable (Index d')"
    and "map_of (files fs') filename = Some bytes"
  shows "\<exists>d''. Open d0 fs' filename indexFilename = (Ok (), d'') \<and> Index d'' = Index d' \<and>
           HasIndex d''"
proof -
  from assms(3) have "map (\<lambda>e. c_str (index_line e)) (Index d') = map index_line (Index d')"
    by (auto simp: list_all_iff serializable_c_str)
  with CreateIndex_Ok_file[OF assms(1,2)]
  have "map_of (files fs') indexFilename = Some (concat (map index_line (Index d')))" by simp
  from Open_serialized[OF assms(4,2) this assms(3), of d0] show ?thesis by blast
qed


text \<open>A well-formed file with one record whose name has 1021 characters: with
  \<open>>\<close> and the line feed its header line has the 1023 bytes one \<^verbatim>\<open>fgets\<close> reads.\<close>

definition long_name :: string where
  "long_name = replicate 1021 CHR ''N''"

definition long_record :: "fasta_record list" where
  "long_record = [\<lparr>rec_name = long_name, rec_desc = [], rec_lines = [''AC'']\<rparr>]"

definition long_reader :: FastaPrivate where
  "long_reader =
     FastaPrivate_new\<lparr>Stream := \<lparr>fdata = render [LF] long_record, fpos = 0, feof = False\<rparr>,
                        IsOpen := True\<rparr>"

text \<open>The line of the index for this record.\<close>

definition long_index_text :: string where
  "long_index_text =
     long_name @ [TAB, CHR ''2''] @ (TAB # ''1023'' @ TAB # ''2'' @ TAB # ''3'' @ [LF])"

definition long_disk :: filesystem where
  "long_disk = \<lparr>files = [(''long.fa'', render [LF] long_record)], write_protected = []\<rparr>"

section \<open>Writing to a named index file\<close>

lemma map_other_files:
  "map (\<lambda>(q, bytes). if q = p then (q, bytes @ X) else (q, bytes))
     (filter (\<lambda>(q, bytes). q \<noteq> p) xs) = filter (\<lambda>(q, bytes). q \<noteq> p) xs"
  by (induction xs) auto

lemma CreateIndex_writable:
  assumes "build_index d = (Ok (), d4)" and "f \<noteq> []" and "f \<notin> set (write_protected fs)"
  shows "fst (CreateIndex d fs f) = Ok () \<and>
         Index (fst (snd (CreateIndex d fs f))) = Index d4 \<and>
         files (snd (snd (CreateIndex d fs f))) =
           (f, concat (map (\<lambda>e. c_str (index_line e)) (Index d4))) #
           filter (\<lambda>(p, bytes). p \<noteq> f) (files fs)"
  using assms
  by (simp add: CreateIndex_def fopen_wb_def WriteIndexData_def write_loop_Writing map_other_files)

lemma two_expected_index:
  "expected_index [LF] two_records =
     [\<lparr>Name = ''seq1'', Length = 10, Offset = 12, LineLength = 4, ByteLength = 5\<rparr>,
      \<lparr>Name = ''seq2'', Length = 5, Offset = 31, LineLength = 4, ByteLength = 5\<rparr>]"
  by code_simp

lemma two_serializable: "list_all serializable (expected_index [LF] two_records)"
  unfolding two_expected_index
  by (simp add: serializable_def index_line_def show_int_def show_nat.simps isspace_def)

theorem index_round_trip_witness:
  "fst (CreateIndex two_reader two_disk ''two.fai'') = Ok () \<and>
   fst (Open FastaPrivate_new (snd (snd (CreateIndex two_reader two_disk ''two.fai'')))
          ''two.fa'' ''two.fai'') = Ok () \<and>
   Index (snd (Open FastaPrivate_new (snd (snd (CreateIndex two_reader two_disk ''two.fai'')))
                 ''two.fa'' ''two.fai'')) =
     Index (fst (snd (CreateIndex two_reader two_disk ''two.fai''))) \<and>
   Index (fst (snd (CreateIndex two_reader two_disk ''two.fai''))) =
     [\<lparr>Name = ''seq1'', Length = 10, Offset = 12, LineLength = 4, ByteLength = 5\<rparr>,
      \<lparr>Name = ''seq2'', Length = 5, Offset = 31, LineLength = 4, ByteLength = 5\<rparr>]"
proof -
  have b: "build_index two_reader =
             (Ok (), two_reader\<lparr>Stream := \<lparr>fdata = render [LF] two_records,
                                              fpos = length (render [LF] two_records), feof = True\<rparr>,
                                   Index := expected_index [LF] two_records\<rparr>)"
    by (rule build_index_wf[OF two_records_wf]) (simp_all add: two_reader_def FastaPrivate_new_def)
  have w: "''two.fai'' \<noteq> []" "''two.fai'' \<notin> set (write_protected two_disk)"
    by (simp_all add: two_disk_def)
  note c = CreateIndex_writable[OF b w]
  obtain r d' fs' where ci: "CreateIndex two_reader two_disk ''two.fai'' = (r, d', fs')"
    by (cases "CreateIndex two_reader two_disk ''two.fai''")
  with c have r: "r = Ok ()" and ix: "Index d' = expected_index [LF] two_records"
    and fi: "map_of (files fs') ''two.fa'' = Some (render [LF] two_records)"
    by (simp_all add: two_disk_def)
  from ix two_serializable have s: "list_all serializable (Index d')" by simp
  from index_round_trip[OF ci[unfolded r] w(1) s fi, of FastaPrivate_new]
  show ?thesis by (auto simp: ci r ix two_expected_index)
qed

section \<open>An index line longer than the buffer\<close>

lemma take_line_full: "LF \<notin> set (take k xs) \<Longrightarrow> take_line k xs = take k xs"
proof (induction k xs rule: take_line.induct)
  case (1 cs)
  then show ?case by simp
next
  case (2 k)
  then show ?case by simp
next
  case (3 k c cs)
  then show ?case by auto
qed

lemma extract_int_not_good:
  "\<not> good ss \<Longrightarrow> fst (extract_int lo hi ss) = None"
  by (simp add: extract_int_def sentry_def)

lemma extract_int_at_end:
  assumes "good ss" and "drop (sget ss) (sbuf ss) = [TAB, CHR ''2'']"
  shows "\<not> good (snd (extract_int (- (2 ^ 31)) (2 ^ 31 - 1) ss))"
proof -
  have s: "sentry ss = (True, ss\<lparr>sget := sget ss + 1\<rparr>)"
    using assms by (simp add: sentry_def Let_def isspace_def)
  let ?ss1 = "ss\<lparr>sget := sget ss + 1\<rparr>"
  have d1: "drop (sget ?ss1) (sbuf ?ss1) = [CHR ''2'']"
    using drop_further[of "sget ss" "sbuf ss" "[TAB]" "[CHR ''2'']"] assms(2) by simp
  show ?thesis
    unfolding extract_int_def s prod.case bool.case Let_def d1
    by (simp add: isdigit_def digits_val_def digit_val_def good_def)
qed

lemma parse_truncated_line:
  assumes "good ss" and "drop (sget ss) (sbuf ss) = tok @ [TAB, CHR ''2'']" and "tok \<noteq> []"
    and "list_all (\<lambda>x. \<not> isspace x) tok"
  shows "fst (parse_index_line ss) = Aborted IndeterminateValue"
proof -
  let ?s1 = "ss\<lparr>sget := sget ss + length tok, eofbit := False\<rparr>"
  have e0: "extract_string ss = (Some tok, ?s1)"
    using extract_string_token[OF assms(1) _ assms(3,4), of TAB "[CHR ''2'']"] assms(2)
    by (simp add: isspace_def)
  from assms(1) have g1: "good ?s1" by (simp add: good_def)
  have d1: "drop (sget ?s1) (sbuf ?s1) = [TAB, CHR ''2'']"
    using drop_further[of "sget ss" "sbuf ss" tok "[TAB, CHR ''2'']"] assms(2) by simp
  obtain len ss2 where e1: "extract_int (- (2 ^ 31)) (2 ^ 31 - 1) ?s1 = (len, ss2)"
    by (cases "extract_int (- (2 ^ 31)) (2 ^ 31 - 1) ?s1")
  with extract_int_at_end[OF g1 d1] have ng: "\<not> good ss2" by simp
  obtain off ss3 where e2: "extract_int (- (2 ^ 63)) (2 ^ 63 - 1) ss2 = (off, ss3)"
    by (cases "extract_int (- (2 ^ 63)) (2 ^ 63 - 1) ss2")
  with extract_int_not_good[OF ng, of "- (2 ^ 63)" "2 ^ 63 - 1"] have off: "off = None" by simp
  show ?thesis
    unfolding parse_index_line_def e0 prod.case e1 e2 off
    by (simp split: prod.splits option.splits)
qed

lemma long_record_wf: "wf_fasta [LF] long_record"
  by (simp add: wf_fasta_def wf_newline_def wf_record_def wf_line_def long_record_def long_name_def
      header_line_def dewrapped_def isgraph_def is_blank_def list_all_iff render_def
      render_record_def wrapped_def)

lemma long_expected_index:
  "expected_index [LF] long_record =
     [\<lparr>Name = long_name, Length = 2, Offset = 1023, LineLength = 2, ByteLength = 3\<rparr>]"
proof -
  have "rec_lines (hd long_record) = ''AC'' # []" by (simp add: long_record_def)
  from measured_geometry_lines[OF long_record_wf this]
  show ?thesis
    by (simp add: expected_index_def long_record_def dewrapped_def header_line_def long_name_def)
qed

lemma shown_numbers: "show_int 2 = ''2''" "show_int 3 = ''3''" "show_int 1023 = ''1023''"
  by code_simp+

lemma long_index_line:
  "c_str (index_line \<lparr>Name = long_name, Length = 2, Offset = 1023, LineLength = 2, ByteLength = 3\<rparr>) =
     long_index_text"
proof -
  have "NUL \<notin> set long_name" by (simp add: long_name_def)
  then show ?thesis
    unfolding long_index_text_def
    by (subst c_str_no_NUL) (simp_all add: index_line_def shown_numbers)
qed

lemma load_truncated:
  assumes tk: "take 1023 line = tok @ [TAB, CHR ''2'']" and len: "length tok = 1021"
    and ok: "list_all (\<lambda>x. \<not> isspace x \<and> x \<noteq> NUL \<and> x \<noteq> EOFC) tok"
  shows "fst (load_loop \<lparr>sbuf = [], sget = 0, eofbit = False, failbit = False\<rparr>
                \<lparr>fdata = line, fpos = 0, feof = False\<rparr> []) = Aborted IndeterminateValue"
proof -
  let ?s = "\<lparr>fdata = line, fpos = 0, feof = False\<rparr>"
  let ?s1 = "\<lparr>fdata = line, fpos = 1, feof = False\<rparr>"
  let ?ib = "\<lparr>sbuf = [], sget = 0, eofbit = False, failbit = False\<rparr>"
  let ?buf = "tok @ [TAB, CHR ''2'']"
  from len have nn: "tok \<noteq> []" by auto
  from ok have el: "\<And>x. x \<in> set tok \<Longrightarrow> \<not> isspace x \<and> x \<noteq> NUL \<and> x \<noteq> EOFC"
    by (simp add: list_all_iff)
  from arg_cong[OF tk, of length] len have ll: "1023 \<le> length line" by simp
  have "take 1023 line ! 0 = line ! 0" by simp
  then have c0: "line ! 0 = hd tok" using nn unfolding tk by (simp add: nth_append hd_conv_nth)
  from el[of "hd tok"] nn have hc: "hd tok \<noteq> LF" "hd tok \<noteq> EOFC" by (auto simp: isspace_def)
  have fg: "fgetc ?s = (Some (hd tok), ?s1)" using ll c0 by (auto simp: fgetc_def)
  have un: "ungetc (hd tok) ?s1 = ?s" using hc by (simp add: ungetc_def)
  have "LF \<notin> set (take 1023 line)" unfolding tk using el by (auto simp: isspace_def)
  from take_line_full[OF this] have tl: "take_line 1023 line = ?buf" by (simp add: tk)
  have cs: "c_str ?buf = ?buf" by (rule c_str_no_NUL) (use el in auto)
  have fl: "fgets 1024 ?s = (Some ?buf, \<lparr>fdata = line, fpos = 1023, feof = False\<rparr>)"
    unfolding fgets_def by (simp add: tl cs len Let_def)
  let ?ib1 = "insert_c_str (str_clear ?ib) ?buf"
  have ib1: "good ?ib1" "drop (sget ?ib1) (sbuf ?ib1) = ?buf"
    by (simp_all add: insert_c_str_def str_clear_def good_def)
  from el have ns: "list_all (\<lambda>x. \<not> isspace x) tok" by (simp add: list_all_iff)
  from parse_truncated_line[OF ib1 nn ns]
  obtain ib2 where p: "parse_index_line ?ib1 = (Aborted IndeterminateValue, ib2)"
    by (cases "parse_index_line ?ib1") auto
  show ?thesis
    by (subst load_loop.simps, unfold fg prod.case Let_def to_char_def option.case un fl p)
       (simp add: hc)
qed

lemma long_load:
  "fst (load_loop \<lparr>sbuf = [], sget = 0, eofbit = False, failbit = False\<rparr>
          \<lparr>fdata = long_index_text, fpos = 0, feof = False\<rparr> []) = Aborted IndeterminateValue"
proof (rule load_truncated)
  show "take 1023 long_index_text = long_name @ [TAB, CHR ''2'']"
    by (simp add: long_index_text_def long_name_def)
  show "length long_name = 1021" by (simp add: long_name_def)
  show "list_all (\<lambda>x. \<not> isspace x \<and> x \<noteq> NUL \<and> x \<noteq> EOFC) long_name"
    by (simp add: long_name_def list_all_iff isspace_def)
qed

text \<open>
  C4 as stated fails on a well-formed data file with a name of 1021 characters.
  \<^verbatim>\<open>CreateIndex\<close> builds and writes the index; the line it writes has 1033
  bytes, so \<^verbatim>\<open>LoadIndexData\<close> reads only its first 1023 bytes as a line: the
  name, a tab and the length.  The string stream is at its end after the length,
  so the offset, the line length and the byte length of the entry are never
  written, and the entry is stored with these fields uninitialised.  \<^verbatim>\<open>Open\<close>
  does not yield the table that was built.
\<close>

theorem index_round_trip_long_name:
  "wf_fasta [LF] long_record \<and>
   fst (CreateIndex long_reader long_disk ''long.fai'') = Ok () \<and>
   Index (fst (snd (CreateIndex long_reader long_disk ''long.fai''))) =
     [\<lparr>Name = long_name, Length = 2, Offset = 1023, LineLength = 2, ByteLength = 3\<rparr>] \<and>
   fst (Open FastaPrivate_new (snd (snd (CreateIndex long_reader long_disk ''long.fai'')))
          ''long.fa'' ''long.fai'') = Aborted IndeterminateValue"
proof -
  have b: "build_index long_reader =
             (Ok (), long_reader\<lparr>Stream := \<lparr>fdata = render [LF] long_record,
                                               fpos = length (render [LF] long_record), feof = True\<rparr>,
                                    Index := expected_index [LF] long_record\<rparr>)"
    by (rule build_index_wf[OF long_record_wf]) (simp_all add: long_reader_def FastaPrivate_new_def)
  have w: "''long.fai'' \<noteq> []" "''long.fai'' \<notin> set (write_protected long_disk)"
    by (simp_all add: long_disk_def)
  note c = CreateIndex_writable[OF b w]
  let ?fs' = "snd (snd (CreateIndex long_reader long_disk ''long.fai''))"
  from c have ix: "Index (fst (snd (CreateIndex long_reader long_disk ''long.fai''))) =
      [\<lparr>Name = long_name, Length = 2, Offset = 1023, LineLength = 2, ByteLength = 3\<rparr>]"
    by (simp add: long_expected_index)
  from c have f1: "map_of (files ?fs') ''long.fa'' = Some (render [LF] long_record)"
    by (simp add: long_disk_def)
  from c have f2: "map_of (files ?fs') ''long.fai'' = Some long_index_text"
    by (simp add: long_expected_index long_index_line)
  obtain r s' ix' where ll:
    "load_loop \<lparr>sbuf = [], sget = 0, eofbit = False, failbit = False\<rparr>
       \<lparr>fdata = long_index_text, fpos = 0, feof = False\<rparr> [] = (r, s', ix')"
    by (cases "load_loop \<lparr>sbuf = [], sget = 0, eofbit = False, failbit = False\<rparr>
       \<lparr>fdata = long_index_text, fpos = 0, feof = False\<rparr> []")
  with long_load have r: "r = Aborted IndeterminateValue" by simp
  have "fst (Open FastaPrivate_new ?fs' ''long.fa'' ''long.fai'') = Aborted IndeterminateValue"
    by (simp add: Open_def fopen_rb_def f1 f2 LoadIndexData_def ll r FastaPrivate_new_def)
  with long_record_wf c ix show ?thesis by simp
qed


end
